theory Spec2Isabelle
  imports Main "HOL-Library.Sublist"
begin

section \<open>Python strings and lists\<close>

text \<open>
  The export routine \<open>extract_playlist_tracks\<close> of \<open>main.py\<close> uses a few operations of
  Python's \<open>str\<close> and \<open>list\<close>: \<open>x in s\<close>, \<open>s.split(sep)\<close>, \<open>xs[i]\<close>, \<open>sep.join(xs)\<close> and
  \<open>str(n)\<close>. They are modelled here. \<open>x in s\<close> on strings is \<^const>\<open>sublist\<close>.
  A string is a list of characters; the routine only compares strings, concatenates them
  and searches them for ASCII literals, which acts alike on code points and on the bytes
  of their UTF-8 encoding.
\<close>

datatype error =
    InvalidUrlError      \<comment> \<open>line 66: the marker is not in the URL; message printed, return\<close>
  | MalformedIdError     \<comment> \<open>line 73: \<open>except IndexError\<close>; message printed, return\<close>
  | FetchError           \<comment> \<open>line 86: \<open>except SpotifyException\<close>; message printed, return\<close>
  | IndexError           \<comment> \<open>an uncaught \<open>IndexError\<close>\<close>
  | KeyError string      \<comment> \<open>an uncaught \<open>KeyError\<close> on the named key\<close>

text \<open>\<open>xs[i]\<close> for a non-negative literal index: out of range raises \<open>IndexError\<close>.\<close>

definition index :: "'a list \<Rightarrow> nat \<Rightarrow> error + 'a" where
  "index xs i = (if i < length xs then Inr (xs ! i) else Inl IndexError)"

text \<open>
  \<open>cut_first sep s\<close> finds the leftmost occurrence of \<open>sep\<close> in \<open>s\<close> and returns the text
  before it and the text after it (Python's \<open>s.partition(sep)\<close>), or \<open>None\<close> when \<open>sep\<close>
  does not occur.
\<close>

fun cut_first :: "string \<Rightarrow> string \<Rightarrow> (string \<times> string) option" where
  "cut_first sep [] = (if sep = [] then Some ([], []) else None)"
| "cut_first sep (c # cs) =
     (if prefix sep (c # cs) then Some ([], drop (length sep) (c # cs))
      else map_option (\<lambda>(p, r). (c # p, r)) (cut_first sep cs))"

text \<open>
  \<open>s.split(sep)\<close>: the pieces of \<open>s\<close> between the occurrences of \<open>sep\<close>, scanning from the
  left, occurrences not overlapping. Python raises \<open>ValueError\<close> on an empty separator; the
  program only passes the literals \<open>"playlist/"\<close> and \<open>"?"\<close>, and the first branch below only
  makes the function total.
\<close>

function str_split :: "string \<Rightarrow> string \<Rightarrow> string list" where
  "str_split sep s =
     (if sep = [] then [s]
      else case cut_first sep s of
             None \<Rightarrow> [s]
           | Some (p, r) \<Rightarrow> p # str_split sep r)"
  by pat_completeness auto
termination
proof (relation "measure (\<lambda>(sep, s). length s)")
  show "wf (measure (\<lambda>(sep, s). length s))" by simp
next
  fix sep s :: string and x2 p r
  assume sep: "sep \<noteq> []" and cut: "cut_first sep s = Some x2" and x2: "(p, r) = x2"
  have len: "cut_first sep t = Some (q, r) \<Longrightarrow> length q + length sep + length r = length t"
    for t q
  proof (induction t arbitrary: q)
    case Nil
    then show ?case by (simp split: if_splits)
  next
    case (Cons c cs)
    show ?case
    proof (cases "prefix sep (c # cs)")
      case True
      with Cons.prems have "q = []" "r = drop (length sep) (c # cs)" by simp_all
      moreover from True have "length sep \<le> length (c # cs)" by (rule prefix_length_le)
      ultimately show ?thesis by simp
    next
      case False
      with Cons.prems obtain q' where "cut_first sep cs = Some (q', r)" "q = c # q'"
        by auto
      with Cons.IH show ?thesis by fastforce
    qed
  qed
  from cut x2 have "length p + length sep + length r = length s"
    using len [of s p] by simp
  with sep show "((sep, r), (sep, s)) \<in> measure (\<lambda>(sep, s). length s)"
    by (cases sep) simp_all
qed

declare str_split.simps [simp del]

text \<open>\<open>sep.join(xs)\<close> on a list of strings.\<close>

fun join :: "string \<Rightarrow> string list \<Rightarrow> string" where
  "join sep [] = []"
| "join sep [x] = x"
| "join sep (x # y # ys) = x @ sep @ join sep (y # ys)"

text \<open>\<open>str(n)\<close> on an integer: its decimal digits, with a minus sign when negative.\<close>

definition digit :: "nat \<Rightarrow> char" where
  "digit d = char_of (48 + d)"

function str_nat :: "nat \<Rightarrow> string" where
  "str_nat n = (if n < 10 then [digit n] else str_nat (n div 10) @ [digit (n mod 10)])"
  by pat_completeness auto
termination
  by (relation "measure id") auto

declare str_nat.simps [simp del]

definition str_int :: "int \<Rightarrow> string" where
  "str_int i = (if i < 0 then CHR ''-'' # str_nat (nat (- i)) else str_nat (nat i))"

section \<open>The csv module\<close>

text \<open>
  The ledger is read with \<open>csv.reader\<close> and written with \<open>csv.writer\<close>, both with the
  default dialect: delimiter \<open>,\<close>, quote character \<open>"\<close> doubled inside quoted fields, no
  escape character, minimal quoting, line terminator \<open>\r\n\<close>, not strict. The file is
  opened with \<open>newline=''\<close>, so the characters reach the reader and leave the writer
  untranslated. The reader's limit on the size of a field and a file that is not valid
  UTF-8 are left out: either ends the run with an exception before anything is written.
\<close>

type_synonym row = "string list"

definition CR :: char where "CR = CHR 0x0D"
definition LF :: char where "LF = CHR 0x0A"
definition quotechar :: char where "quotechar = CHR 0x22"

text \<open>
  The states of the reader, as in \<open>parse_process_char\<close> of the library, each with what
  the reader holds in it: the fields saved for the current record and the characters of
  the current field. \<open>START_RECORD\<close> is the state between records. The reader receives the
  file line by line, a line ending at \<open>\n\<close>, at \<open>\r\n\<close> or at \<open>\r\<close>; a record that ends at
  \<open>\r\<close> leaves the reader in \<open>EAT_CRNL\<close>, where a \<open>\n\<close> that follows belongs to the same
  line and is dropped, and any other character starts the next record.
\<close>

datatype state =
    START_RECORD
  | EAT_CRNL
  | START_FIELD row
  | IN_FIELD row string
  | IN_QUOTED_FIELD row string
  | QUOTE_IN_QUOTED_FIELD row string

text \<open>
  One character: the records it completes (none or one) and the next state. A line that
  is only a terminator gives the empty record.
\<close>

definition start_field :: "row \<Rightarrow> char \<Rightarrow> row list \<times> state" where
  "start_field fields c =
     (if c = LF then ([fields @ [[]]], START_RECORD)
      else if c = CR then ([fields @ [[]]], EAT_CRNL)
      else if c = quotechar then ([], IN_QUOTED_FIELD fields [])
      else if c = CHR '','' then ([], START_FIELD (fields @ [[]]))
      else ([], IN_FIELD fields [c]))"

definition start_record :: "char \<Rightarrow> row list \<times> state" where
  "start_record c =
     (if c = LF then ([[]], START_RECORD)
      else if c = CR then ([[]], EAT_CRNL)
      else start_field [] c)"

fun parse_process_char :: "state \<Rightarrow> char \<Rightarrow> row list \<times> state" where
  "parse_process_char START_RECORD c = start_record c"
| "parse_process_char EAT_CRNL c =
     (if c = LF then ([], START_RECORD) else start_record c)"
| "parse_process_char (START_FIELD fields) c = start_field fields c"
| "parse_process_char (IN_FIELD fields field) c =
     (if c = LF then ([fields @ [field]], START_RECORD)
      else if c = CR then ([fields @ [field]], EAT_CRNL)
      else if c = CHR '','' then ([], START_FIELD (fields @ [field]))
      else ([], IN_FIELD fields (field @ [c])))"
| "parse_process_char (IN_QUOTED_FIELD fields field) c =
     (if c = quotechar then ([], QUOTE_IN_QUOTED_FIELD fields field)
      else ([], IN_QUOTED_FIELD fields (field @ [c])))"
| "parse_process_char (QUOTE_IN_QUOTED_FIELD fields field) c =
     (if c = quotechar then ([], IN_QUOTED_FIELD fields (field @ [c]))
      else if c = CHR '','' then ([], START_FIELD (fields @ [field]))
      else if c = LF then ([fields @ [field]], START_RECORD)
      else if c = CR then ([fields @ [field]], EAT_CRNL)
      else ([], IN_FIELD fields (field @ [c])))"

text \<open>
  The end of the file: a record that no line terminator ended is returned as it stands,
  also inside a quoted field that was never closed.
\<close>

fun end_of_input :: "state \<Rightarrow> row list" where
  "end_of_input START_RECORD = []"
| "end_of_input EAT_CRNL = []"
| "end_of_input (START_FIELD fields) = [fields @ [[]]]"
| "end_of_input (IN_FIELD fields field) = [fields @ [field]]"
| "end_of_input (IN_QUOTED_FIELD fields field) = [fields @ [field]]"
| "end_of_input (QUOTE_IN_QUOTED_FIELD fields field) = [fields @ [field]]"

text \<open>The records completed within a text, and the state the reader is left in.\<close>

fun process :: "state \<Rightarrow> string \<Rightarrow> row list \<times> state" where
  "process s [] = ([], s)"
| "process s (c # cs) =
     (case parse_process_char s c of (out, s') \<Rightarrow>
        (case process s' cs of (rows, s'') \<Rightarrow> (out @ rows, s'')))"

text \<open>\<open>list(csv.reader(f))\<close> on a file with the given content.\<close>

definition csv_reader :: "string \<Rightarrow> row list" where
  "csv_reader content =
     (case process START_RECORD content of (rows, s) \<Rightarrow> rows @ end_of_input s)"

text \<open>
  The writer quotes a field that holds the delimiter, the quote character or a character
  of the line terminator, doubling the quote characters in it; a record of one empty
  field is written as an empty quoted field.
\<close>

definition special :: "char \<Rightarrow> bool" where
  "special c = (c = CHR '','' \<or> c = quotechar \<or> c = CR \<or> c = LF)"

definition quote_field :: "string \<Rightarrow> string" where
  "quote_field field =
     (if list_ex special field
      then quotechar # concat (map (\<lambda>c. if c = quotechar then [c, c] else [c]) field)
             @ [quotechar]
      else field)"

text \<open>What \<open>writer.writerow(fields)\<close> appends to the file, the fields already strings.\<close>

definition csv_record :: "row \<Rightarrow> string" where
  "csv_record fields =
     (if fields = [[]] then [quotechar, quotechar] else join '','' (map quote_field fields))
     @ [CR, LF]"

text \<open>
  A text that leaves the reader between records: it is empty, or it ends with a line
  terminator that is not inside a quoted field.
\<close>

definition terminated :: "string \<Rightarrow> bool" where
  "terminated content =
     (case snd (process START_RECORD content) of
        START_RECORD \<Rightarrow> True
      | EAT_CRNL \<Rightarrow> True
      | _ \<Rightarrow> False)"

section \<open>The data of the export\<close>

text \<open>
  A playlist item of the Web API is a dict whose \<open>'track'\<close> is \<open>None\<close> or a track object, a
  dict with a \<open>'name'\<close> (a string) and \<open>'artists'\<close> (a list of dicts, each with a \<open>'name'\<close>).
  A dict may lack a key, and subscripting it then raises \<open>KeyError\<close>: a field below is
  \<open>None\<close> when its key is missing from the dict. The empty dict \<open>{}\<close> is the track with no
  field at all.
\<close>

record artist =
  artist_name :: "string option"

record track =
  track_name :: "string option"
  track_artists :: "artist list option"

text \<open>\<open>item['track']\<close>: \<open>None\<close> is Python's \<open>None\<close>.\<close>

type_synonym item = "track option"

definition empty_track :: track where
  "empty_track = \<lparr>track_name = None, track_artists = None\<rparr>"

text \<open>The track object with the given name and artists' names, every key present.\<close>

definition track_of :: "string \<Rightarrow> string list \<Rightarrow> track" where
  "track_of name artists =
     \<lparr>track_name = Some name,
      track_artists = Some (map (\<lambda>a. \<lparr>artist_name = Some a\<rparr>) artists)\<rparr>"

text \<open>
  The ledger file \<open>playlist_export.csv\<close>: \<open>None\<close> is a path that does not exist,
  \<open>Some content\<close> a file with that text, \<open>Some []\<close> a file of zero bytes.
\<close>

type_synonym ledger_file = "string option"

text \<open>
  The collaborator \<open>sp.playlist_tracks\<close> followed by the pagination loop (lines 79 to 85):
  the items of the playlist with the given ID, or \<open>None\<close> when a \<open>SpotifyException\<close> was
  raised.
\<close>

type_synonym fetcher = "string \<Rightarrow> item list option"

section \<open>The export routine\<close>

subsection \<open>Lines 66 to 75: the playlist ID\<close>

definition url_marker :: string where
  "url_marker = ''open.spotify.com/playlist/''"

definition parse_playlist_id :: "string \<Rightarrow> error + string" where
  "parse_playlist_id playlist_url =
     (if \<not> sublist url_marker playlist_url then Inl InvalidUrlError
      else case index (str_split ''playlist/'' playlist_url) 1 of
             Inl e \<Rightarrow> Inl MalformedIdError
           | Inr tail \<Rightarrow>
               (case index (str_split ''?'' tail) 0 of
                  Inl e \<Rightarrow> Inl MalformedIdError
                | Inr playlist_id \<Rightarrow> Inr playlist_id))"

text \<open>
  The playlist ID in the words of the specification (section 4.1), to compare with
  \<open>parse_playlist_id\<close>: the URL must contain \<open>playlist/\<close> following the canonical domain,
  and the ID is the substring between that \<open>playlist/\<close> and the next \<open>?\<close>, or the end of
  the string.
\<close>

definition playlist_id_spec :: "string \<Rightarrow> error + string" where
  "playlist_id_spec playlist_url =
     (case cut_first url_marker playlist_url of
        None \<Rightarrow> Inl InvalidUrlError
      | Some (p, r) \<Rightarrow> Inr (takeWhile (\<lambda>c. c \<noteq> CHR ''?'') r))"

subsection \<open>Lines 91 to 99: the track descriptors\<close>

fun artist_names :: "artist list \<Rightarrow> error + string list" where
  "artist_names [] = Inr []"
| "artist_names (a # as) =
     (case artist_name a of
        None \<Rightarrow> Inl (KeyError ''name'')
      | Some n \<Rightarrow>
          (case artist_names as of
             Inl e \<Rightarrow> Inl e
           | Inr ns \<Rightarrow> Inr (n # ns)))"

definition descriptor :: "track \<Rightarrow> error + string" where
  "descriptor t =
     (case track_name t of
        None \<Rightarrow> Inl (KeyError ''name'')
      | Some name \<Rightarrow>
          (case track_artists t of
             None \<Rightarrow> Inl (KeyError ''artists'')
           | Some as \<Rightarrow>
               (case artist_names as of
                  Inl e \<Rightarrow> Inl e
                | Inr ns \<Rightarrow> Inr (name @ '' - '' @ join '', '' ns))))"

fun track_data_raw :: "item list \<Rightarrow> error + string list" where
  "track_data_raw [] = Inr []"
| "track_data_raw (None # items) = track_data_raw items"
| "track_data_raw (Some t # items) =
     (case descriptor t of
        Inl e \<Rightarrow> Inl e
      | Inr d \<Rightarrow>
          (case track_data_raw items of
             Inl e \<Rightarrow> Inl e
           | Inr ds \<Rightarrow> Inr (d # ds)))"

subsection \<open>Lines 101 to 114: reading the ledger\<close>

text \<open>The text a file holds; none when the path does not exist.\<close>

definition file_content :: "ledger_file \<Rightarrow> string" where
  "file_content f = (case f of None \<Rightarrow> [] | Some content \<Rightarrow> content)"

text \<open>Line 105: the path exists and the file is not empty.\<close>

definition file_exists :: "ledger_file \<Rightarrow> bool" where
  "file_exists f = (case f of None \<Rightarrow> False | Some content \<Rightarrow> 0 < length content)"

text \<open>The loop over the rows that follow the one taken by \<open>next(reader, None)\<close>.\<close>

fun read_rows :: "row list \<Rightarrow> string set \<Rightarrow> error + string set" where
  "read_rows [] existing = Inr existing"
| "read_rows (row # rows) existing =
     (if length row > 1 then
        (case index row 1 of
           Inl e \<Rightarrow> Inl e
         | Inr t \<Rightarrow> read_rows rows (insert t existing))
      else read_rows rows existing)"

definition read_ledger :: "ledger_file \<Rightarrow> error + string set" where
  "read_ledger f =
     (if file_exists f then read_rows (drop 1 (csv_reader (file_content f))) {}
      else Inr {})"

subsection \<open>Lines 116 to 120: the merge scan\<close>

definition merge_step :: "string \<Rightarrow> string list \<times> string set \<Rightarrow> string list \<times> string set" where
  "merge_step entry st =
     (case st of (new_unique_tracks, existing_entries) \<Rightarrow>
        if entry \<notin> existing_entries
        then (new_unique_tracks @ [entry], insert entry existing_entries)
        else (new_unique_tracks, existing_entries))"

definition merge :: "string list \<Rightarrow> string set \<Rightarrow> string list \<times> string set" where
  "merge raw existing_entries = fold merge_step raw ([], existing_entries)"

subsection \<open>Lines 124 to 138: appending\<close>

definition header :: row where
  "header = [''Index'', ''Track'']"

definition start_index :: "bool \<Rightarrow> string set \<Rightarrow> string list \<Rightarrow> int" where
  "start_index existed existing_entries new_unique_tracks =
     (if existed then int (card existing_entries) - int (length new_unique_tracks) + 1
      else 1)"

text \<open>The rows handed to \<open>writer.writerow\<close> in the last loop, the index as \<open>str\<close> renders it.\<close>

definition new_rows :: "int \<Rightarrow> string list \<Rightarrow> row list" where
  "new_rows start new_unique_tracks =
     map (\<lambda>(idx, entry). [str_int (start + int idx), entry]) (enumerate 0 new_unique_tracks)"

text \<open>
  The file is opened for appending, which creates it when the path does not exist; each
  \<open>writerow\<close> adds its record to the end of the text.
\<close>

definition append_ledger :: "ledger_file \<Rightarrow> string set \<Rightarrow> string list \<Rightarrow> ledger_file" where
  "append_ledger f existing_entries new_unique_tracks =
     Some (file_content f
           @ (if \<not> file_exists f then csv_record header else [])
           @ concat (map csv_record
               (new_rows (start_index (file_exists f) existing_entries new_unique_tracks)
                  new_unique_tracks)))"

subsection \<open>The whole routine\<close>

text \<open>
  What a run that reaches the two final \<open>print\<close>s reports: the number of new unique tracks
  and the total number of unique tracks.
\<close>

record report =
  exported :: nat
  total :: nat

text \<open>Lines 101 to 141, from the track descriptors on.\<close>

definition export_tracks :: "string list \<Rightarrow> ledger_file \<Rightarrow> (error + report) \<times> ledger_file" where
  "export_tracks raw f =
     (case read_ledger f of
        Inl e \<Rightarrow> (Inl e, f)
      | Inr existing \<Rightarrow>
          (case merge raw existing of (new_unique_tracks, existing_entries) \<Rightarrow>
             (Inr \<lparr>exported = length new_unique_tracks, total = card existing_entries\<rparr>,
              append_ledger f existing_entries new_unique_tracks)))"

definition extract_playlist_tracks ::
  "fetcher \<Rightarrow> string \<Rightarrow> ledger_file \<Rightarrow> (error + report) \<times> ledger_file" where
  "extract_playlist_tracks sp playlist_url f =
     (case parse_playlist_id playlist_url of
        Inl e \<Rightarrow> (Inl e, f)
      | Inr playlist_id \<Rightarrow>
          (case sp playlist_id of
             None \<Rightarrow> (Inl FetchError, f)
           | Some tracks \<Rightarrow>
               (case track_data_raw tracks of
                  Inl e \<Rightarrow> (Inl e, f)
                | Inr raw \<Rightarrow> export_tracks raw f)))"

text \<open>A sequence of runs on the same path, each with its own collaborator state and URL.\<close>

definition runs :: "(fetcher \<times> string) list \<Rightarrow> ledger_file \<Rightarrow> ledger_file" where
  "runs inputs f = fold (\<lambda>(sp, url) f. snd (extract_playlist_tracks sp url f)) inputs f"

text \<open>
  The reader in the words of the specification (section 4.2), to compare with
  \<open>read_ledger\<close>: a header row is skipped if present, and every data row with at least two
  columns gives its column 1.
\<close>

definition read_ledger_spec :: "ledger_file \<Rightarrow> string set" where
  "read_ledger_spec f =
     (if file_exists f
      then (case csv_reader (file_content f) of
              [] \<Rightarrow> {}
            | r # rs \<Rightarrow>
                set (map (\<lambda>r. r ! 1)
                  (filter (\<lambda>r. 1 < length r) (if r = header then rs else r # rs))))
      else {})"

section \<open>Properties of the decimal rendering\<close>

lemma digit_value: "d < 10 \<Longrightarrow> of_char (digit d) = 48 + d"
  by (simp add: digit_def)

lemma str_nat_value:
  "foldl (\<lambda>a c. 10 * a + (of_char c - 48)) 0 (str_nat n) = n"
proof (induction n rule: str_nat.induct)
  case (1 n)
  show ?case
  proof (cases "n < 10")
    case True
    then show ?thesis
      by (subst str_nat.simps) (simp add: digit_value)
  next
    case False
    have "n mod 10 < 10" by simp
    then have d: "of_char (digit (n mod 10)) = 48 + n mod 10" by (rule digit_value)
    from False 1 have "foldl (\<lambda>a c. 10 * a + (of_char c - 48)) 0 (str_nat (n div 10)) = n div 10"
      by simp
    with False show ?thesis
      by (subst str_nat.simps) (simp add: d)
  qed
qed

lemma str_nat_inj: "str_nat m = str_nat n \<Longrightarrow> m = n"
  by (metis str_nat_value)

lemma digit_not_minus: "d < 10 \<Longrightarrow> CHR ''-'' \<noteq> digit d"
proof
  assume "d < 10" and "CHR ''-'' = digit d"
  then have "(of_char CHR ''-'' :: nat) = 48 + d" by (simp add: digit_value)
  then show False by simp
qed

lemma str_nat_no_minus: "CHR ''-'' \<notin> set (str_nat n)"
proof (induction n rule: str_nat.induct)
  case (1 n)
  show ?case
  proof (cases "n < 10")
    case True
    then show ?thesis
      by (subst str_nat.simps) (simp add: digit_not_minus)
  next
    case False
    with 1 have "CHR ''-'' \<notin> set (str_nat (n div 10))" by simp
    with False show ?thesis
      by (subst str_nat.simps) (simp add: digit_not_minus)
  qed
qed

lemma str_nat_not_Nil: "str_nat n \<noteq> []"
  by (subst str_nat.simps) simp

lemma str_int_inj: "str_int i = str_int j \<Longrightarrow> i = j"
proof -
  assume e: "str_int i = str_int j"
  have h: "hd (str_nat n) \<noteq> CHR ''-''" for n
    using str_nat_no_minus [of n] str_nat_not_Nil [of n] by (cases "str_nat n") auto
  show "i = j"
  proof (cases "i < 0"; cases "j < 0")
    assume "i < 0" "j < 0"
    with e have "str_nat (nat (- i)) = str_nat (nat (- j))" by (simp add: str_int_def)
    then have "nat (- i) = nat (- j)" by (rule str_nat_inj)
    with \<open>i < 0\<close> \<open>j < 0\<close> show ?thesis by simp
  next
    assume "i < 0" "\<not> j < 0"
    with e have "CHR ''-'' # str_nat (nat (- i)) = str_nat (nat j)" by (simp add: str_int_def)
    then have "hd (str_nat (nat j)) = CHR ''-''" by (metis list.sel(1))
    with h show ?thesis by simp
  next
    assume "\<not> i < 0" "j < 0"
    with e have "str_nat (nat i) = CHR ''-'' # str_nat (nat (- j))" by (simp add: str_int_def)
    then have "hd (str_nat (nat i)) = CHR ''-''" by (metis list.sel(1))
    with h show ?thesis by simp
  next
    assume "\<not> i < 0" "\<not> j < 0"
    with e have "str_nat (nat i) = str_nat (nat j)" by (simp add: str_int_def)
    then have "nat i = nat j" by (rule str_nat_inj)
    with \<open>\<not> i < 0\<close> \<open>\<not> j < 0\<close> show ?thesis by simp
  qed
qed

section \<open>Properties of the merge scan\<close>

lemma merge_snoc: "merge (xs @ [x]) E = merge_step x (merge xs E)"
  by (simp add: merge_def)

lemma first_occurrences_snoc:
  "map ((!) (xs @ [x]))
     (filter (\<lambda>i. (xs @ [x]) ! i \<notin> E \<and> (xs @ [x]) ! i \<notin> set (take i (xs @ [x])))
        [0..<length (xs @ [x])])
   = map ((!) xs) (filter (\<lambda>i. xs ! i \<notin> E \<and> xs ! i \<notin> set (take i xs)) [0..<length xs])
     @ (if x \<notin> E \<and> x \<notin> set xs then [x] else [])"
proof -
  let ?P = "\<lambda>ys i. ys ! i \<notin> E \<and> ys ! i \<notin> set (take i ys)"
  have f: "filter (?P (xs @ [x])) [0..<length xs] = filter (?P xs) [0..<length xs]"
    by (rule filter_cong) (auto simp: nth_append)
  have m: "map ((!) (xs @ [x])) (filter (?P xs) [0..<length xs])
         = map ((!) xs) (filter (?P xs) [0..<length xs])"
    by (rule map_cong) (auto simp: nth_append)
  have l: "?P (xs @ [x]) (length xs) \<longleftrightarrow> x \<notin> E \<and> x \<notin> set xs"
    by simp
  have "filter (?P (xs @ [x])) [0..<length (xs @ [x])]
        = filter (?P xs) [0..<length xs] @ (if x \<notin> E \<and> x \<notin> set xs then [length xs] else [])"
    using f l by (simp del: take_append)
  then show ?thesis
    using m by simp
qed

lemma merge_char:
  "merge raw E =
     (map ((!) raw) (filter (\<lambda>i. raw ! i \<notin> E \<and> raw ! i \<notin> set (take i raw)) [0..<length raw]),
      E \<union> set raw)"
proof (induction raw rule: rev_induct)
  case Nil
  show ?case by (simp add: merge_def)
next
  case (snoc x xs)
  show ?case
    unfolding merge_snoc snoc.IH first_occurrences_snoc
    by (auto simp: merge_step_def)
qed

lemma merge_snd: "snd (merge raw E) = E \<union> set raw"
  by (simp add: merge_char)

lemma merge_fst_props:
  "distinct (fst (merge raw E)) \<and> set (fst (merge raw E)) = set raw - E"
proof (induction raw rule: rev_induct)
  case Nil
  show ?case by (simp add: merge_def)
next
  case (snoc x xs)
  obtain new E' where m: "merge xs E = (new, E')" by (cases "merge xs E")
  with merge_snd [of xs E] have E': "E' = E \<union> set xs" by simp
  from snoc m have "distinct new" "set new = set xs - E" by simp_all
  then show ?case
    unfolding merge_snoc m by (auto simp: merge_step_def E')
qed

lemma merge_known: "set raw \<subseteq> E \<Longrightarrow> merge raw E = ([], E)"
proof -
  assume s: "set raw \<subseteq> E"
  have "set (fst (merge raw E)) = {}" using s by (simp add: merge_fst_props)
  moreover have "snd (merge raw E) = E" using s by (auto simp: merge_snd)
  ultimately show ?thesis by (cases "merge raw E") simp
qed

lemma merge_card:
  assumes "finite E"
  shows "card (snd (merge raw E)) = card E + length (fst (merge raw E))"
proof -
  let ?new = "fst (merge raw E)"
  have d: "distinct ?new" and s: "set ?new = set raw - E"
    by (simp_all add: merge_fst_props)
  have "snd (merge raw E) = E \<union> set ?new" by (auto simp: merge_snd s)
  moreover have "card (E \<union> set ?new) = card E + card (set ?new)"
    using assms s by (intro card_Un_disjoint) auto
  ultimately show ?thesis using d by (simp add: distinct_card)
qed

section \<open>Properties of the reader and the writer\<close>

lemma process_append:
  "process s (xs @ ys) =
     (case process s xs of (r1, s1) \<Rightarrow>
        (case process s1 ys of (r2, s2) \<Rightarrow> (r1 @ r2, s2)))"
proof (induction xs arbitrary: s)
  case Nil
  show ?case by (simp split: prod.splits)
next
  case (Cons c cs)
  show ?case
    by (simp add: Cons.IH split: prod.splits)
qed

lemma process_plain:
  "\<not> list_ex special fl' \<Longrightarrow>
   process (IN_FIELD fs fl) (fl' @ rest) = process (IN_FIELD fs (fl @ fl')) rest"
proof (induction fl' arbitrary: fl)
  case Nil
  show ?case by simp
next
  case (Cons c cs)
  from Cons.prems have c: "\<not> special c" and cs: "\<not> list_ex special cs" by simp_all
  from c have "parse_process_char (IN_FIELD fs fl) c = ([], IN_FIELD fs (fl @ [c]))"
    by (simp add: special_def)
  then show ?case
    using Cons.IH [OF cs, of "fl @ [c]"] by simp
qed

lemma process_quoted:
  "process (IN_QUOTED_FIELD fs fl)
     (concat (map (\<lambda>c. if c = quotechar then [c, c] else [c]) fl') @ rest)
   = process (IN_QUOTED_FIELD fs (fl @ fl')) rest"
proof (induction fl' arbitrary: fl)
  case Nil
  show ?case by simp
next
  case (Cons c cs)
  show ?case
    using Cons.IH [of "fl @ [c]"] by (cases "c = quotechar") simp_all
qed

lemmas quotechar_neq = quotechar_def LF_def CR_def

text \<open>A fl as the writer renders it, read from the start of a fl.\<close>

lemma process_field:
  "process (START_FIELD fs) (quote_field fl @ rest) =
     (if list_ex special fl then process (QUOTE_IN_QUOTED_FIELD fs fl) rest
      else if fl = [] then process (START_FIELD fs) rest
      else process (IN_FIELD fs fl) rest)"
proof (cases "list_ex special fl")
  case True
  have "process (START_FIELD fs) (quote_field fl @ rest)
        = process (IN_QUOTED_FIELD fs [])
            (concat (map (\<lambda>c. if c = quotechar then [c, c] else [c]) fl) @ quotechar # rest)"
    using True by (simp add: quote_field_def start_field_def quotechar_neq)
  also have "\<dots> = process (IN_QUOTED_FIELD fs fl) (quotechar # rest)"
    using process_quoted [of fs "[]" fl "quotechar # rest"] by simp
  also have "\<dots> = process (QUOTE_IN_QUOTED_FIELD fs fl) rest"
    by simp
  finally show ?thesis using True by simp
next
  case False
  show ?thesis
  proof (cases fl)
    case Nil
    with False show ?thesis by (simp add: quote_field_def)
  next
    case (Cons c cs)
    with False have c: "\<not> special c" and cs: "\<not> list_ex special cs" by simp_all
    from c have "parse_process_char (START_FIELD fs) c = ([], IN_FIELD fs [c])"
      by (simp add: special_def start_field_def)
    then have "process (START_FIELD fs) (quote_field fl @ rest)
               = process (IN_FIELD fs [c]) (cs @ rest)"
      using False Cons by (simp add: quote_field_def)
    also have "\<dots> = process (IN_FIELD fs fl) rest"
      using process_plain [OF cs, of fs "[c]" rest] Cons by simp
    finally show ?thesis using False Cons by simp
  qed
qed

lemma process_field_comma:
  "process (START_FIELD fs) (quote_field fl @ CHR '','' # rest)
   = process (START_FIELD (fs @ [fl])) rest"
  by (simp add: process_field start_field_def quotechar_neq)

lemma process_field_crlf:
  "process (START_FIELD fs) (quote_field fl @ CR # LF # rest)
   = (case process START_RECORD rest of (rows, s) \<Rightarrow> ((fs @ [fl]) # rows, s))"
  by (simp add: process_field start_field_def quotechar_neq split: prod.splits)

text \<open>The first character of a rendered fl that a comma follows starts a fl.\<close>

lemma process_first_field:
  assumes "s = START_RECORD \<or> s = EAT_CRNL"
  shows "process s (quote_field fl @ CHR '','' # rest)
         = process (START_FIELD []) (quote_field fl @ CHR '','' # rest)"
proof -
  obtain c cs where q: "quote_field fl @ CHR '','' # rest = c # cs"
    by (cases "quote_field fl @ CHR '','' # rest") simp_all
  have "c \<noteq> LF \<and> c \<noteq> CR"
  proof (cases "list_ex special fl")
    case True
    with q have "c = quotechar" by (simp add: quote_field_def)
    then show ?thesis by (simp add: quotechar_neq)
  next
    case False
    show ?thesis
    proof (cases fl)
      case Nil
      with False q have "c = CHR '',''" by (simp add: quote_field_def)
      then show ?thesis by (simp add: quotechar_neq)
    next
      case (Cons d ds)
      with False q have "c = d" "\<not> special d" by (simp_all add: quote_field_def)
      then show ?thesis by (auto simp: special_def)
    qed
  qed
  then have "parse_process_char s c = parse_process_char (START_FIELD []) c"
    using assms by (auto simp: start_record_def)
  then show ?thesis
    unfolding q by simp
qed

lemma process_record2:
  assumes "s = START_RECORD \<or> s = EAT_CRNL"
  shows "process s (csv_record [a, b] @ rest)
         = (case process START_RECORD rest of (rows, s') \<Rightarrow> ([a, b] # rows, s'))"
proof -
  have "csv_record [a, b] @ rest = quote_field a @ CHR '','' # quote_field b @ CR # LF # rest"
    by (simp add: csv_record_def)
  then show ?thesis
    using process_first_field [OF assms, of a "quote_field b @ CR # LF # rest"]
    by (simp add: process_field_comma process_field_crlf)
qed

section \<open>Properties of the rows written and read\<close>

lemma new_rows_Nil: "new_rows s [] = []"
  by (simp add: new_rows_def)

lemma new_rows_Cons: "new_rows s (x # xs) = [str_int s, x] # new_rows (s + 1) xs"
  by (simp add: new_rows_def enumerate_Suc_eq [of 0] o_def case_prod_beta add.assoc)

lemma new_rows_append:
  "new_rows s (xs @ ys) = new_rows s xs @ new_rows (s + int (length xs)) ys"
  by (induction xs arbitrary: s) (simp_all add: new_rows_Nil new_rows_Cons add.assoc)

lemma new_rows_nth:
  "new_rows s xs = map (\<lambda>k. [str_int (s + int k), xs ! k]) [0..<length xs]"
  by (rule nth_equalityI) (simp_all add: new_rows_def nth_enumerate_eq)

lemma read_rows_char:
  "read_rows rows E = Inr (E \<union> set (map (\<lambda>r. r ! 1) (filter (\<lambda>r. 1 < length r) rows)))"
  by (induction rows arbitrary: E) (auto simp: index_def)

lemma new_rows_entries:
  "map (\<lambda>r. r ! 1) (filter (\<lambda>r. 1 < length r) (new_rows s xs)) = xs"
  by (induction xs arbitrary: s) (simp_all add: new_rows_Nil new_rows_Cons)

lemma new_rows_indices_distinct: "distinct (map (\<lambda>r. r ! 0) (new_rows s es))"
proof -
  have "map (\<lambda>r. r ! 0) (new_rows s es) = map (\<lambda>k. str_int (s + int k)) [0..<length es]"
    by (simp add: new_rows_nth)
  moreover have "inj_on (\<lambda>k. str_int (s + int k)) (set [0..<length es])"
    by (rule inj_onI) (auto dest: str_int_inj)
  ultimately show ?thesis by (simp add: distinct_map)
qed


text \<open>The reader on the records that the last loop of the routine writes.\<close>

lemma process_new_rows:
  assumes "s = START_RECORD \<or> s = EAT_CRNL"
  shows "process s (concat (map csv_record (new_rows i es)))
         = (new_rows i es, if es = [] then s else START_RECORD)"
  using assms
proof (induction es arbitrary: s i)
  case Nil
  show ?case by (simp add: new_rows_Nil)
next
  case (Cons e es)
  have "process START_RECORD (concat (map csv_record (new_rows (i + 1) es)))
        = (new_rows (i + 1) es, START_RECORD)"
    using Cons.IH [of START_RECORD "i + 1"] by simp
  then show ?case
    using process_record2 [OF Cons.prems, of "str_int i" e
        "concat (map csv_record (new_rows (i + 1) es))"]
    by (simp add: new_rows_Cons)
qed

lemma process_header_new_rows:
  assumes "s = START_RECORD \<or> s = EAT_CRNL"
  shows "process s (csv_record header @ concat (map csv_record (new_rows i es)))
         = (header # new_rows i es, START_RECORD)"
proof -
  have "process START_RECORD (concat (map csv_record (new_rows i es)))
        = (new_rows i es, START_RECORD)"
    using process_new_rows [of START_RECORD i es] by simp
  then show ?thesis
    using process_record2 [OF assms, of "''Index''" "''Track''"
        "concat (map csv_record (new_rows i es))"]
    by (simp add: header_def)
qed

lemma terminated_state:
  "terminated content \<longleftrightarrow>
   snd (process START_RECORD content) = START_RECORD
   \<or> snd (process START_RECORD content) = EAT_CRNL"
  by (simp add: terminated_def split: state.splits)

lemma csv_reader_terminated:
  "terminated content \<Longrightarrow> csv_reader content = fst (process START_RECORD content)"
  by (auto simp: terminated_state csv_reader_def split: prod.splits)

lemma reader_appended:
  assumes "terminated content"
  shows "csv_reader (content @ concat (map csv_record (new_rows i es)))
           = csv_reader content @ new_rows i es
       \<and> terminated (content @ concat (map csv_record (new_rows i es)))"
proof -
  obtain rows0 s0 where p: "process START_RECORD content = (rows0, s0)"
    by (cases "process START_RECORD content")
  with assms have s0: "s0 = START_RECORD \<or> s0 = EAT_CRNL"
    by (simp add: terminated_state)
  let ?w = "concat (map csv_record (new_rows i es))"
  have a: "process START_RECORD (content @ ?w)
           = (rows0 @ new_rows i es, if es = [] then s0 else START_RECORD)"
    by (simp add: process_append p process_new_rows [OF s0])
  have t: "terminated (content @ ?w)"
    using s0 by (auto simp: terminated_state a)
  have "csv_reader content = rows0"
    using csv_reader_terminated [OF assms] p by simp
  moreover have "csv_reader (content @ ?w) = rows0 @ new_rows i es"
    using csv_reader_terminated [OF t] a by simp
  ultimately show ?thesis using t by simp
qed

lemma reader_created:
  "csv_reader (csv_record header @ concat (map csv_record (new_rows i es)))
     = header # new_rows i es
   \<and> terminated (csv_record header @ concat (map csv_record (new_rows i es)))"
proof -
  let ?w = "csv_record header @ concat (map csv_record (new_rows i es))"
  have a: "process START_RECORD ?w = (header # new_rows i es, START_RECORD)"
    by (rule process_header_new_rows) simp
  then have t: "terminated ?w" by (simp add: terminated_state)
  from csv_reader_terminated [OF t] a t show ?thesis by simp
qed

text \<open>A file that is not empty holds at least one record.\<close>

lemma step_within_record:
  assumes "s \<noteq> START_RECORD" "s \<noteq> EAT_CRNL"
  shows "fst (parse_process_char s c) \<noteq> []
       \<or> (snd (parse_process_char s c) \<noteq> START_RECORD
          \<and> snd (parse_process_char s c) \<noteq> EAT_CRNL)"
  using assms by (cases s) (auto simp: start_field_def)

lemma rows_within_record:
  "s \<noteq> START_RECORD \<Longrightarrow> s \<noteq> EAT_CRNL \<Longrightarrow>
   fst (process s cs) @ end_of_input (snd (process s cs)) \<noteq> []"
proof (induction cs arbitrary: s)
  case Nil
  then show ?case by (cases s) simp_all
next
  case (Cons c cs)
  obtain out s' where st: "parse_process_char s c = (out, s')"
    by (cases "parse_process_char s c")
  show ?case
  proof (cases "out = []")
    case False
    then show ?thesis by (simp add: st split: prod.splits)
  next
    case True
    with step_within_record [OF Cons.prems, of c] st
    have "s' \<noteq> START_RECORD" "s' \<noteq> EAT_CRNL" by simp_all
    from Cons.IH [OF this] show ?thesis
      by (simp add: st True split: prod.splits)
  qed
qed

lemma csv_reader_not_Nil: "content \<noteq> [] \<Longrightarrow> csv_reader content \<noteq> []"
proof (cases content)
  case Nil
  then show "content \<noteq> [] \<Longrightarrow> ?thesis" by simp
next
  case (Cons c cs)
  obtain out s' where st: "start_record c = (out, s')"
    by (cases "start_record c")
  show ?thesis
  proof (cases "out = []")
    case False
    then show ?thesis
      by (simp add: csv_reader_def Cons st split: prod.splits)
  next
    case True
    with st have "s' \<noteq> START_RECORD" "s' \<noteq> EAT_CRNL"
      by (auto simp: start_record_def start_field_def split: if_splits)
    from rows_within_record [OF this, of cs] show ?thesis
      by (auto simp: csv_reader_def Cons st True split: prod.splits)
  qed
qed

lemma read_ledger_char:
  "read_ledger f =
     Inr (if file_exists f
          then set (map (\<lambda>r. r ! 1)
                 (filter (\<lambda>r. 1 < length r) (drop 1 (csv_reader (file_content f)))))
          else {})"
  by (simp add: read_ledger_def read_rows_char)

lemma read_ledger_finite: "read_ledger f = Inr E \<Longrightarrow> finite E"
  by (auto simp: read_ledger_char split: if_splits)

text \<open>
  What a run does from the track descriptors on, in terms of the set read from the file.
\<close>

lemma export_tracks_eq:
  assumes "read_ledger f = Inr E0"
  shows "export_tracks raw f =
     (Inr \<lparr>exported = length (fst (merge raw E0)), total = card (E0 \<union> set raw)\<rparr>,
      Some (file_content f @ (if file_exists f then [] else csv_record header)
            @ concat (map csv_record
                (new_rows (if file_exists f then int (card E0) + 1 else 1)
                   (fst (merge raw E0))))))"
proof -
  have fin: "finite E0" using assms by (rule read_ledger_finite)
  obtain new E where m: "merge raw E0 = (new, E)" by (cases "merge raw E0")
  have E: "E = E0 \<union> set raw" using merge_snd [of raw E0] m by simp
  have c: "card E = card E0 + length new" using merge_card [OF fin, of raw] m by simp
  show ?thesis
    using c by (simp add: export_tracks_def assms m append_ledger_def start_index_def E)
qed

section \<open>Properties of a sequence of runs\<close>

lemma file_content_Some: "file_content (Some content) = content"
  by (simp add: file_content_def)

lemma file_exists_Some: "file_exists (Some content) \<longleftrightarrow> content \<noteq> []"
  by (simp add: file_exists_def)

lemma file_content_absent: "\<not> file_exists f \<Longrightarrow> file_content f = []"
  by (auto simp: file_exists_def file_content_def split: option.splits)

lemma csv_record_not_Nil: "csv_record r \<noteq> []"
  by (simp add: csv_record_def)

lemma file_exists_after_append:
  "file_exists (Some (file_content f @ (if file_exists f then [] else csv_record header) @ w))"
  by (auto simp: file_exists_def file_content_def csv_record_not_Nil split: option.splits)

lemma entries_after_append:
  assumes "terminated (file_content f)" and "read_ledger f = Inr E0"
  shows "read_ledger (Some (file_content f @ (if file_exists f then [] else csv_record header)
                            @ concat (map csv_record (new_rows s new))))
         = Inr (E0 \<union> set new)"
proof (cases "file_exists f")
  case True
  let ?c = "file_content f"
  let ?w = "concat (map csv_record (new_rows s new))"
  from True have ne: "?c \<noteq> []"
    by (auto simp: file_exists_def file_content_def split: option.splits)
  have r: "csv_reader (?c @ ?w) = csv_reader ?c @ new_rows s new"
    using reader_appended [OF assms(1)] by simp
  have "csv_reader ?c \<noteq> []" using ne by (rule csv_reader_not_Nil)
  then have d: "drop 1 (csv_reader ?c @ new_rows s new) = drop 1 (csv_reader ?c) @ new_rows s new"
    by (cases "csv_reader ?c") simp_all
  from assms(2) True
  have E0: "E0 = set (map (\<lambda>r. r ! 1) (filter (\<lambda>r. 1 < length r) (drop 1 (csv_reader ?c))))"
    by (simp add: read_ledger_char)
  have ex: "file_exists (Some (?c @ ?w))"
    using ne by (simp add: file_exists_Some)
  have "read_ledger (Some (?c @ ?w))
        = Inr (set (map (\<lambda>r. r ! 1) (filter (\<lambda>r. 1 < length r) (drop 1 (csv_reader ?c))))
               \<union> set (map (\<lambda>r. r ! 1) (filter (\<lambda>r. 1 < length r) (new_rows s new))))"
    unfolding read_ledger_char file_content_Some r d using ex by simp
  then show ?thesis
    using True by (simp only: new_rows_entries E0 if_True append_Nil)
next
  case False
  let ?w = "csv_record header @ concat (map csv_record (new_rows s new))"
  from assms(2) False have E0: "E0 = {}" by (simp add: read_ledger_char)
  have r: "csv_reader ?w = header # new_rows s new"
    using reader_created [of s new] by simp
  have ex: "file_exists (Some ?w)"
    by (simp add: file_exists_def csv_record_not_Nil)
  have "read_ledger (Some ?w)
        = Inr (set (map (\<lambda>r. r ! 1) (filter (\<lambda>r. 1 < length r) (new_rows s new))))"
    unfolding read_ledger_char file_content_Some r using ex by simp
  then have "read_ledger (Some ?w) = Inr (set new)"
    by (simp only: new_rows_entries)
  then show ?thesis
    using False by (simp add: E0 file_content_absent [OF False])
qed

lemma export_tracks_again:
  assumes "terminated (file_content f)" and "export_tracks raw f = (Inr r, f')"
  shows "export_tracks raw f' = (Inr \<lparr>exported = 0, total = total r\<rparr>, f')"
proof -
  obtain E0 where r0: "read_ledger f = Inr E0"
    by (simp add: read_ledger_char)
  let ?new = "fst (merge raw E0)"
  let ?s = "if file_exists f then int (card E0) + 1 else 1"
  let ?c' = "file_content f @ (if file_exists f then [] else csv_record header)
             @ concat (map csv_record (new_rows ?s ?new))"
  from assms(2) export_tracks_eq [OF r0, of raw]
  have r: "r = \<lparr>exported = length ?new, total = card (E0 \<union> set raw)\<rparr>"
    and f': "f' = Some ?c'"
    by simp_all
  have "read_ledger f' = Inr (E0 \<union> set ?new)"
    unfolding f' using assms(1) r0 by (rule entries_after_append)
  moreover have "E0 \<union> set ?new = E0 \<union> set raw"
    by (auto simp: merge_fst_props)
  ultimately have r1: "read_ledger f' = Inr (E0 \<union> set raw)" by simp
  have ex: "file_exists f'"
    unfolding f' by (rule file_exists_after_append)
  have m: "merge raw (E0 \<union> set raw) = ([], E0 \<union> set raw)"
    by (rule merge_known) simp
  have o: "file_content f' = ?c'"
    by (simp add: f' file_content_def)
  show ?thesis
    using export_tracks_eq [OF r1, of raw] ex
    by (simp add: m r new_rows_Nil o) (simp add: f')
qed

text \<open>
  C3, as amended. On a ledger file that is absent, empty, or whose text ends with a line
  terminator outside a quoted field, when a run succeeds, a second run with the same URL
  and the same fetch batch on the file the first one left appends no row (the file is
  left as it is, and zero new tracks are reported) and reports the same total of unique
  tracks.
\<close>

theorem second_run_appends_nothing:
  assumes "terminated (file_content f)"
    and "extract_playlist_tracks sp url f = (Inr r, f')"
  shows "extract_playlist_tracks sp url f' = (Inr \<lparr>exported = 0, total = total r\<rparr>, f')"
proof -
  from assms(2) obtain pid tracks raw where
    p: "parse_playlist_id url = Inr pid" and s: "sp pid = Some tracks"
    and t: "track_data_raw tracks = Inr raw" and e: "export_tracks raw f = (Inr r, f')"
    by (auto simp: extract_playlist_tracks_def split: sum.splits option.splits)
  from export_tracks_again [OF assms(1) e] show ?thesis
    by (simp add: extract_playlist_tracks_def p s t)
qed

text \<open>Two runs starting with no file, and a second run on a ledger of two entries.\<close>

theorem second_run_appends_nothing_witness:
  "terminated (file_content None)
   \<and> extract_playlist_tracks (\<lambda>pid. Some [Some (track_of ''Song'' [''X''])])
       ''https://open.spotify.com/playlist/abc?si=1'' None
     = (Inr \<lparr>exported = 1, total = 1\<rparr>,
        Some (''Index,Track'' @ [CR, LF] @ ''1,Song - X'' @ [CR, LF]))
   \<and> extract_playlist_tracks (\<lambda>pid. Some [Some (track_of ''Song'' [''X''])])
       ''https://open.spotify.com/playlist/abc?si=1''
       (Some (''Index,Track'' @ [CR, LF] @ ''1,Song - X'' @ [CR, LF]))
     = (Inr \<lparr>exported = 0, total = 1\<rparr>,
        Some (''Index,Track'' @ [CR, LF] @ ''1,Song - X'' @ [CR, LF]))
   \<and> terminated (file_content (Some (''Index,Track'' @ [CR, LF] @ ''1,Other - Y'' @ [CR, LF])))
   \<and> extract_playlist_tracks (\<lambda>pid. Some [Some (track_of ''Song'' [''X''])])
       ''https://open.spotify.com/playlist/abc?si=1''
       (Some (''Index,Track'' @ [CR, LF] @ ''1,Other - Y'' @ [CR, LF]
              @ ''2,Song - X'' @ [CR, LF]))
     = (Inr \<lparr>exported = 0, total = 2\<rparr>,
        Some (''Index,Track'' @ [CR, LF] @ ''1,Other - Y'' @ [CR, LF]
              @ ''2,Song - X'' @ [CR, LF]))"
proof -
  let ?sp = "\<lambda>pid. Some [Some (track_of ''Song'' [''X''])]"
  let ?url = "''https://open.spotify.com/playlist/abc?si=1''"
  let ?g = "Some (''Index,Track'' @ [CR, LF] @ ''1,Other - Y'' @ [CR, LF])"
  have t1: "terminated (file_content None)"
    by code_simp
  have a: "extract_playlist_tracks ?sp ?url None
     = (Inr \<lparr>exported = 1, total = 1\<rparr>,
        Some (''Index,Track'' @ [CR, LF] @ ''1,Song - X'' @ [CR, LF]))"
    by code_simp
  have t2: "terminated (file_content ?g)"
    by code_simp
  have b: "extract_playlist_tracks ?sp ?url ?g
     = (Inr \<lparr>exported = 1, total = 2\<rparr>,
        Some (''Index,Track'' @ [CR, LF] @ ''1,Other - Y'' @ [CR, LF]
              @ ''2,Song - X'' @ [CR, LF]))"
    by code_simp
  from second_run_appends_nothing [OF t1 a] second_run_appends_nothing [OF t2 b] t1 t2 a
  show ?thesis by simp
qed

text \<open>
  C3 as stated fails on a ledger whose last line has no terminator: the first record
  appended runs into that line, so the track is not read back, and the second run
  exports it again.
\<close>

theorem second_run_unterminated_counterexample:
  "extract_playlist_tracks (\<lambda>pid. Some [Some (track_of ''Song'' [''X''])])
       ''https://open.spotify.com/playlist/abc'' (Some ''Index,Track'')
     = (Inr \<lparr>exported = 1, total = 1\<rparr>,
        Some (''Index,Track1,Song - X'' @ [CR, LF]))
   \<and> extract_playlist_tracks (\<lambda>pid. Some [Some (track_of ''Song'' [''X''])])
       ''https://open.spotify.com/playlist/abc''
       (Some (''Index,Track1,Song - X'' @ [CR, LF]))
     = (Inr \<lparr>exported = 1, total = 1\<rparr>,
        Some (''Index,Track1,Song - X'' @ [CR, LF] @ ''1,Song - X'' @ [CR, LF]))
   \<and> csv_reader (''Index,Track1,Song - X'' @ [CR, LF])
     = [[''Index'', ''Track1'', ''Song - X'']]"
  by code_simp

lemma extract_error_keeps_file:
  "fst (extract_playlist_tracks sp url f) = Inl e \<Longrightarrow> snd (extract_playlist_tracks sp url f) = f"
  by (auto simp: extract_playlist_tracks_def export_tracks_def read_ledger_char
           split: sum.splits option.splits prod.splits)

lemma read_ledger_written:
  "read_ledger (Some (csv_record header @ concat (map csv_record (new_rows s es))))
   = Inr (set es)"
proof -
  let ?w = "csv_record header @ concat (map csv_record (new_rows s es))"
  have r: "csv_reader ?w = header # new_rows s es"
    using reader_created [of s es] by simp
  have ex: "file_exists (Some ?w)"
    by (simp add: file_exists_def csv_record_not_Nil)
  have "read_ledger (Some ?w)
        = Inr (set (map (\<lambda>r. r ! 1) (filter (\<lambda>r. 1 < length r) (new_rows s es))))"
    unfolding read_ledger_char file_content_Some r using ex by simp
  then show ?thesis
    by (simp only: new_rows_entries)
qed

lemma export_tracks_continues:
  assumes "distinct es"
  shows "export_tracks raw (Some (csv_record header @ concat (map csv_record (new_rows 1 es)))) =
     (Inr \<lparr>exported = length (fst (merge raw (set es))),
           total = length es + length (fst (merge raw (set es)))\<rparr>,
      Some (csv_record header
            @ concat (map csv_record (new_rows 1 (es @ fst (merge raw (set es)))))))"
proof -
  let ?f = "Some (csv_record header @ concat (map csv_record (new_rows 1 es)))"
  let ?new = "fst (merge raw (set es))"
  have ex: "file_exists ?f" by (simp add: file_exists_def csv_record_not_Nil)
  have r0: "read_ledger ?f = Inr (set es)" by (rule read_ledger_written)
  have c: "card (set es) = length es" using assms by (rule distinct_card)
  have "card (snd (merge raw (set es))) = card (set es) + length ?new"
    by (rule merge_card) simp
  then have t: "card (set es \<union> set raw) = length es + length ?new"
    by (simp add: merge_snd c)
  show ?thesis
    using export_tracks_eq [OF r0, of raw] ex
    by (simp add: file_content_def new_rows_append c t add.commute)
qed

lemma export_tracks_creates:
  "export_tracks raw None =
     (Inr \<lparr>exported = length (fst (merge raw {})), total = card (set raw)\<rparr>,
      Some (csv_record header @ concat (map csv_record (new_rows 1 (fst (merge raw {}))))))"
proof -
  have r0: "read_ledger None = Inr {}" by (simp add: read_ledger_def file_exists_def)
  show ?thesis
    using export_tracks_eq [OF r0, of raw] by (simp add: file_exists_def file_content_def)
qed

lemma extract_keeps_ledger_shape:
  assumes "f = None \<or> (\<exists>es. distinct es
             \<and> f = Some (csv_record header @ concat (map csv_record (new_rows 1 es))))"
  shows "snd (extract_playlist_tracks sp url f) = None
       \<or> (\<exists>es. distinct es \<and> snd (extract_playlist_tracks sp url f)
             = Some (csv_record header @ concat (map csv_record (new_rows 1 es))))"
proof (cases "fst (extract_playlist_tracks sp url f)")
  case (Inl e)
  then have "snd (extract_playlist_tracks sp url f) = f"
    by (rule extract_error_keeps_file)
  with assms show ?thesis by simp
next
  case (Inr r)
  then obtain raw where e: "snd (extract_playlist_tracks sp url f) = snd (export_tracks raw f)"
    by (auto simp: extract_playlist_tracks_def split: sum.splits option.splits)
  from assms show ?thesis
  proof
    assume n: "f = None"
    have "distinct (fst (merge raw {}))" by (simp add: merge_fst_props)
    moreover have "snd (extract_playlist_tracks sp url f)
        = Some (csv_record header @ concat (map csv_record (new_rows 1 (fst (merge raw {})))))"
      using e by (simp add: n export_tracks_creates)
    ultimately show ?thesis by blast
  next
    assume "\<exists>es. distinct es
             \<and> f = Some (csv_record header @ concat (map csv_record (new_rows 1 es)))"
    then obtain es where d: "distinct es"
      and f: "f = Some (csv_record header @ concat (map csv_record (new_rows 1 es)))"
      by blast
    have "distinct (es @ fst (merge raw (set es)))"
      using d by (auto simp: merge_fst_props)
    moreover have "snd (extract_playlist_tracks sp url f)
        = Some (csv_record header
                @ concat (map csv_record (new_rows 1 (es @ fst (merge raw (set es))))))"
      using e by (simp add: f export_tracks_continues [OF d])
    ultimately show ?thesis by blast
  qed
qed

lemma runs_keep_ledger_shape:
  "f = None \<or> (\<exists>es. distinct es
      \<and> f = Some (csv_record header @ concat (map csv_record (new_rows 1 es)))) \<Longrightarrow>
   runs inputs f = None
   \<or> (\<exists>es. distinct es
        \<and> runs inputs f = Some (csv_record header @ concat (map csv_record (new_rows 1 es))))"
proof (induction inputs arbitrary: f)
  case Nil
  then show ?case by (simp add: runs_def)
next
  case (Cons i inputs)
  obtain sp url where i: "i = (sp, url)" by (cases i)
  have "runs (i # inputs) f = runs inputs (snd (extract_playlist_tracks sp url f))"
    by (simp add: runs_def i)
  moreover note Cons.IH [OF extract_keeps_ledger_shape [OF Cons.prems, of sp url]]
  ultimately show ?case by simp
qed

section \<open>The merge, the reader and the index assignment\<close>

lemma first_occurrences_subseq:
  "subseq (map ((!) raw) (filter P [0..<length raw])) raw"
proof -
  have "subseq (map ((!) raw) (filter P [0..<length raw])) (map ((!) raw) [0..<length raw])"
    by (intro subseq_map subseq_filter_left)
  then show ?thesis by (simp add: map_nth)
qed

lemma records_nth:
  "concat (map csv_record (new_rows s xs))
   = concat (map (\<lambda>k. csv_record [str_int (s + int k), xs ! k]) [0..<length xs])"
  by (simp add: new_rows_nth o_def)

text \<open>
  C1. The merge scan returns the entries of the batch at the positions whose entry is
  neither in the initial set nor at an earlier position of the batch, in the order of the
  batch: the subsequence of the descriptors not in the initial set, each at its first
  occurrence only. The set it returns is the initial set with the batch added. For the
  batch A, B, A, C and no ledger file, A, B, C are appended with the indices 1, 2, 3.
\<close>

theorem merge_keeps_first_occurrences:
  "merge raw E =
     (map ((!) raw) (filter (\<lambda>i. raw ! i \<notin> E \<and> raw ! i \<notin> set (take i raw)) [0..<length raw]),
      E \<union> set raw)
   \<and> subseq (fst (merge raw E)) raw
   \<and> distinct (fst (merge raw E))
   \<and> set (fst (merge raw E)) = set raw - E
   \<and> merge [''A'', ''B'', ''A'', ''C''] {} = ([''A'', ''B'', ''C''], {''A'', ''B'', ''C''})
   \<and> export_tracks [''A'', ''B'', ''A'', ''C''] None =
       (Inr \<lparr>exported = 3, total = 3\<rparr>,
        Some (''Index,Track'' @ [CR, LF] @ ''1,A'' @ [CR, LF] @ ''2,B'' @ [CR, LF]
              @ ''3,C'' @ [CR, LF]))
   \<and> csv_reader (''Index,Track'' @ [CR, LF] @ ''1,A'' @ [CR, LF] @ ''2,B'' @ [CR, LF]
              @ ''3,C'' @ [CR, LF])
       = [[''Index'', ''Track''], [''1'', ''A''], [''2'', ''B''], [''3'', ''C'']]"
proof (intro conjI)
  show "merge raw E =
     (map ((!) raw) (filter (\<lambda>i. raw ! i \<notin> E \<and> raw ! i \<notin> set (take i raw)) [0..<length raw]),
      E \<union> set raw)"
    by (rule merge_char)
  show "subseq (fst (merge raw E)) raw"
    by (simp add: merge_char first_occurrences_subseq)
  show "distinct (fst (merge raw E))" "set (fst (merge raw E)) = set raw - E"
    by (simp_all add: merge_fst_props)
  show "merge [''A'', ''B'', ''A'', ''C''] {} = ([''A'', ''B'', ''C''], {''A'', ''B'', ''C''})"
    by code_simp
  show "export_tracks [''A'', ''B'', ''A'', ''C''] None =
       (Inr \<lparr>exported = 3, total = 3\<rparr>,
        Some (''Index,Track'' @ [CR, LF] @ ''1,A'' @ [CR, LF] @ ''2,B'' @ [CR, LF]
              @ ''3,C'' @ [CR, LF]))"
    by code_simp
  show "csv_reader (''Index,Track'' @ [CR, LF] @ ''1,A'' @ [CR, LF] @ ''2,B'' @ [CR, LF]
              @ ''3,C'' @ [CR, LF])
       = [[''Index'', ''Track''], [''1'', ''A''], [''2'', ''B''], [''3'', ''C'']]"
    by code_simp
qed

text \<open>
  C5, as amended. Reading the ledger never fails. An absent file and an empty file give
  the empty set and are reported as no existing ledger. For any other content the first
  row is skipped, whatever it holds (it is taken to be the header row), and the set holds
  field 1 of every later row that has at least two fields; shorter rows add nothing.
\<close>

theorem read_ledger_skips_first_row:
  "read_ledger None = Inr {}
   \<and> file_exists None = False
   \<and> read_ledger (Some []) = Inr {}
   \<and> file_exists (Some []) = False
   \<and> file_exists (Some (c # cs)) = True
   \<and> read_ledger (Some (c # cs)) =
       Inr (set (map (\<lambda>r. r ! 1) (filter (\<lambda>r. 1 < length r) (drop 1 (csv_reader (c # cs))))))
   \<and> read_ledger (Some (''Index,Track'' @ [CR, LF] @ ''1,A'' @ [CR, LF] @ ''2'' @ [CR, LF]
         @ [CR, LF] @ ''3,B,x'' @ [CR, LF] @ ''4,'' @ [quotechar] @ ''C, d'' @ [quotechar]
         @ [CR, LF]))
       = Inr {''A'', ''B'', ''C, d''}
   \<and> read_ledger (Some (''Index,Track'' @ [CR, LF])) = Inr {}"
proof (intro conjI)
  show "read_ledger None = Inr {}" "read_ledger (Some []) = Inr {}"
    by (simp_all add: read_ledger_def file_exists_def)
  show "file_exists None = False" "file_exists (Some []) = False"
    "file_exists (Some (c # cs)) = True"
    by (simp_all add: file_exists_def)
  show "read_ledger (Some (c # cs)) =
       Inr (set (map (\<lambda>r. r ! 1) (filter (\<lambda>r. 1 < length r) (drop 1 (csv_reader (c # cs))))))"
    unfolding read_ledger_char file_content_Some by (simp add: file_exists_def)
  show "read_ledger (Some (''Index,Track'' @ [CR, LF] @ ''1,A'' @ [CR, LF] @ ''2'' @ [CR, LF]
         @ [CR, LF] @ ''3,B,x'' @ [CR, LF] @ ''4,'' @ [quotechar] @ ''C, d'' @ [quotechar]
         @ [CR, LF]))
       = Inr {''A'', ''B'', ''C, d''}"
    by code_simp
  show "read_ledger (Some (''Index,Track'' @ [CR, LF])) = Inr {}"
    by code_simp
qed

text \<open>
  C5 as stated fails on a file with no header row: no header is present, both rows are
  data rows with two columns, and the reader drops the first of them.
\<close>

theorem read_ledger_headerless_counterexample:
  "read_ledger (Some (''1,A'' @ [CR, LF] @ ''2,B'' @ [CR, LF])) = Inr {''B''}
   \<and> csv_reader (''1,A'' @ [CR, LF] @ ''2,B'' @ [CR, LF]) = [[''1'', ''A''], [''2'', ''B'']]
   \<and> read_ledger_spec (Some (''1,A'' @ [CR, LF] @ ''2,B'' @ [CR, LF])) = {''A'', ''B''}
   \<and> read_ledger (Some (''1,A'' @ [CR, LF] @ ''2,B'' @ [CR, LF]))
       \<noteq> Inr (read_ledger_spec (Some (''1,A'' @ [CR, LF] @ ''2,B'' @ [CR, LF])))"
  by code_simp

text \<open>
  C2. When the ledger existed, the first index written is the size of the set after the
  merge, minus the number of new tracks, plus one, and that is one more than the size of
  the set read from the file at the start of the run; when it did not exist, the first
  index is 1. Record \<open>k\<close> of the new records carries the first index plus \<open>k\<close>. On a
  ledger that holds pairwise distinct entries indexed from 1, the new entries so continue
  the numbering of the rows. For the ledger (1, A), (2, B) and the batch B, C, the one
  row (3, C) is appended and the total is 3.
\<close>

theorem index_assignment:
  assumes "read_ledger f = Inr E0" and "merge raw E0 = (new, E)"
  shows "start_index (file_exists f) E new = (if file_exists f then int (card E0) + 1 else 1)
       \<and> start_index (file_exists f) E new
           = (if file_exists f then int (card E) - int (length new) + 1 else 1)
       \<and> export_tracks raw f =
           (Inr \<lparr>exported = length new, total = card E\<rparr>,
            Some (file_content f @ (if file_exists f then [] else csv_record header)
                  @ concat (map (\<lambda>k. csv_record
                                   [str_int (start_index (file_exists f) E new + int k), new ! k])
                              [0..<length new])))
       \<and> (distinct es \<longrightarrow>
            snd (export_tracks raw
                   (Some (csv_record header @ concat (map csv_record (new_rows 1 es)))))
              = Some (csv_record header
                      @ concat (map csv_record (new_rows 1 (es @ fst (merge raw (set es)))))))
       \<and> export_tracks [''B'', ''C'']
             (Some (''Index,Track'' @ [CR, LF] @ ''1,A'' @ [CR, LF] @ ''2,B'' @ [CR, LF])) =
           (Inr \<lparr>exported = 1, total = 3\<rparr>,
            Some (''Index,Track'' @ [CR, LF] @ ''1,A'' @ [CR, LF] @ ''2,B'' @ [CR, LF]
                  @ ''3,C'' @ [CR, LF]))"
proof (intro conjI)
  have fin: "finite E0" using assms(1) by (rule read_ledger_finite)
  have c: "card E = card E0 + length new"
    using merge_card [OF fin, of raw] assms(2) by simp
  show s: "start_index (file_exists f) E new = (if file_exists f then int (card E0) + 1 else 1)"
    using c by (simp add: start_index_def)
  show "start_index (file_exists f) E new
           = (if file_exists f then int (card E) - int (length new) + 1 else 1)"
    by (simp add: start_index_def)
  show "export_tracks raw f =
           (Inr \<lparr>exported = length new, total = card E\<rparr>,
            Some (file_content f @ (if file_exists f then [] else csv_record header)
                  @ concat (map (\<lambda>k. csv_record
                                   [str_int (start_index (file_exists f) E new + int k), new ! k])
                              [0..<length new])))"
    by (simp add: export_tracks_def assms append_ledger_def records_nth)
  show "distinct es \<longrightarrow>
            snd (export_tracks raw
                   (Some (csv_record header @ concat (map csv_record (new_rows 1 es)))))
              = Some (csv_record header
                      @ concat (map csv_record (new_rows 1 (es @ fst (merge raw (set es))))))"
    by (simp add: export_tracks_continues)
  show "export_tracks [''B'', ''C'']
             (Some (''Index,Track'' @ [CR, LF] @ ''1,A'' @ [CR, LF] @ ''2,B'' @ [CR, LF])) =
           (Inr \<lparr>exported = 1, total = 3\<rparr>,
            Some (''Index,Track'' @ [CR, LF] @ ''1,A'' @ [CR, LF] @ ''2,B'' @ [CR, LF]
                  @ ''3,C'' @ [CR, LF]))"
    by code_simp
qed

text \<open>The ledger (1, A), (2, B) and no ledger, each with the batch B, C.\<close>

theorem index_assignment_witness:
  "read_ledger (Some (''Index,Track'' @ [CR, LF] @ ''1,A'' @ [CR, LF] @ ''2,B'' @ [CR, LF]))
     = Inr {''A'', ''B''}
   \<and> merge [''B'', ''C''] {''A'', ''B''} = ([''C''], {''A'', ''B'', ''C''})
   \<and> start_index True {''A'', ''B'', ''C''} [''C''] = 3
   \<and> read_ledger None = Inr {}
   \<and> merge [''B'', ''C''] {} = ([''B'', ''C''], {''B'', ''C''})
   \<and> export_tracks [''B'', ''C''] None =
       (Inr \<lparr>exported = 2, total = 2\<rparr>,
        Some (''Index,Track'' @ [CR, LF] @ ''1,B'' @ [CR, LF] @ ''2,C'' @ [CR, LF]))
   \<and> distinct [''A'', ''B'']
   \<and> snd (export_tracks [''B'', ''C'']
            (Some (csv_record header @ concat (map csv_record (new_rows 1 [''A'', ''B''])))))
       = Some (csv_record header @ concat (map csv_record (new_rows 1 [''A'', ''B'', ''C''])))"
proof -
  let ?f = "Some (''Index,Track'' @ [CR, LF] @ ''1,A'' @ [CR, LF] @ ''2,B'' @ [CR, LF])"
  have d: "distinct [''A'', ''B'']" by simp
  have n: "fst (merge [''B'', ''C''] (set [''A'', ''B''])) = [''C'']" by code_simp
  have r1: "read_ledger ?f = Inr {''A'', ''B''}"
    by code_simp
  have m1: "merge [''B'', ''C''] {''A'', ''B''} = ([''C''], {''A'', ''B'', ''C''})"
    by code_simp
  have r2: "read_ledger None = Inr {}"
    by code_simp
  have m2: "merge [''B'', ''C''] {} = ([''B'', ''C''], {''B'', ''C''})"
    by code_simp
  have e: "file_exists ?f" "\<not> file_exists None"
    by (simp_all add: file_exists_def)
  have c: "card {''A'', ''B''} = 2" by simp
  have s: "csv_record header = ''Index,Track'' @ [CR, LF]"
    "csv_record [str_int 1, ''B''] = ''1,B'' @ [CR, LF]"
    "csv_record [str_int 2, ''C''] = ''2,C'' @ [CR, LF]"
    by code_simp+
  from index_assignment [OF r1 m1, where es = "[''A'', ''B'']"] d n
  have k: "snd (export_tracks [''B'', ''C'']
            (Some (csv_record header @ concat (map csv_record (new_rows 1 [''A'', ''B''])))))
       = Some (csv_record header @ concat (map csv_record (new_rows 1 [''A'', ''B'', ''C''])))"
    by simp
  from index_assignment [OF r2 m2, where es = "[]"]
  have x: "export_tracks [''B'', ''C''] None =
       (Inr \<lparr>exported = 2, total = 2\<rparr>,
        Some (''Index,Track'' @ [CR, LF] @ ''1,B'' @ [CR, LF] @ ''2,C'' @ [CR, LF]))"
    using e c s by (simp add: file_content_def)
  from index_assignment [OF r1 m1, where es = "[]"]
  have y: "start_index True {''A'', ''B'', ''C''} [''C''] = 3"
    using e c by simp
  from r1 m1 r2 m2 d k x y show ?thesis
    by (intro conjI)
qed

text \<open>
  C9. A ledger file of zero bytes is handled as an absent one: it does not count as
  existing, the set starts empty, the header row is written first and the new entries
  are indexed from 1.
\<close>

theorem empty_file_as_absent:
  "file_exists (Some []) = False
   \<and> read_ledger (Some []) = Inr {}
   \<and> export_tracks raw (Some []) = export_tracks raw None
   \<and> export_tracks raw (Some []) =
       (Inr \<lparr>exported = length (fst (merge raw {})), total = card (set raw)\<rparr>,
        Some (csv_record [''Index'', ''Track'']
              @ concat (map (\<lambda>k. csv_record [str_int (1 + int k), fst (merge raw {}) ! k])
                  [0..<length (fst (merge raw {}))])))
   \<and> csv_record [''Index'', ''Track''] = ''Index,Track'' @ [CR, LF]
   \<and> csv_reader (file_content (snd (export_tracks raw (Some []))))
       = [''Index'', ''Track'']
         # map (\<lambda>k. [str_int (1 + int k), fst (merge raw {}) ! k])
             [0..<length (fst (merge raw {}))]"
proof -
  have r: "read_ledger (Some []) = Inr {}" by (simp add: read_ledger_def file_exists_def)
  have e: "export_tracks raw (Some []) = export_tracks raw None"
    by (simp add: export_tracks_def read_ledger_def file_exists_def append_ledger_def
                  file_content_def)
  have h: "csv_record [''Index'', ''Track''] = ''Index,Track'' @ [CR, LF]"
    by code_simp
  have x: "export_tracks raw (Some []) =
       (Inr \<lparr>exported = length (fst (merge raw {})), total = card (set raw)\<rparr>,
        Some (csv_record [''Index'', ''Track'']
              @ concat (map (\<lambda>k. csv_record [str_int (1 + int k), fst (merge raw {}) ! k])
                  [0..<length (fst (merge raw {}))])))"
    unfolding e export_tracks_creates records_nth by (simp add: header_def)
  have "csv_reader (file_content (snd (export_tracks raw (Some []))))
        = header # new_rows 1 (fst (merge raw {}))"
    unfolding e export_tracks_creates using reader_created [of 1 "fst (merge raw {})"]
    by (simp add: file_content_Some)
  then have y: "csv_reader (file_content (snd (export_tracks raw (Some []))))
       = [''Index'', ''Track'']
         # map (\<lambda>k. [str_int (1 + int k), fst (merge raw {}) ! k])
             [0..<length (fst (merge raw {}))]"
    by (simp add: header_def new_rows_nth)
  from r e h x y show ?thesis
    by (simp add: file_exists_def)
qed

lemma ledger_rows_after_runs:
  "runs inputs None = None
   \<or> (\<exists>es. distinct es
          \<and> runs inputs None =
              Some (csv_record [''Index'', ''Track'']
                    @ concat (map (\<lambda>k. csv_record [str_int (1 + int k), es ! k])
                        [0..<length es]))
          \<and> csv_reader (file_content (runs inputs None)) =
              [''Index'', ''Track'']
              # map (\<lambda>k. [str_int (1 + int k), es ! k]) [0..<length es]
          \<and> distinct (map (\<lambda>k. str_int (1 + int k)) [0..<length es])
          \<and> read_ledger (runs inputs None) = Inr (set es)
          \<and> card (set es) = length es)"
proof -
  from runs_keep_ledger_shape [of None inputs]
  consider "runs inputs None = None"
    | es where "distinct es"
        "runs inputs None = Some (csv_record header @ concat (map csv_record (new_rows 1 es)))"
    by auto
  then show ?thesis
  proof cases
    case 1
    then show ?thesis by simp
  next
    case 2
    have a: "runs inputs None =
              Some (csv_record [''Index'', ''Track'']
                    @ concat (map (\<lambda>k. csv_record [str_int (1 + int k), es ! k])
                        [0..<length es]))"
      using 2(2) by (simp add: records_nth header_def)
    have b: "csv_reader (file_content (runs inputs None)) =
              [''Index'', ''Track'']
              # map (\<lambda>k. [str_int (1 + int k), es ! k]) [0..<length es]"
      unfolding 2(2) file_content_Some using reader_created [of 1 es]
      by (simp add: header_def new_rows_nth)
    have c: "distinct (map (\<lambda>k. str_int (1 + int k)) [0..<length es])"
      using new_rows_indices_distinct [of 1 es] by (simp add: new_rows_nth o_def)
    have d: "read_ledger (runs inputs None) = Inr (set es)"
      unfolding 2(2) by (rule read_ledger_written)
    have e: "card (set es) = length es"
      using 2(1) by (rule distinct_card)
    from 2(1) a b c d e show ?thesis by blast
  qed
qed

text \<open>
  C4. After any sequence of runs that starts with no ledger file, either there is still
  no file (every run failed), or the file is the header record followed by one record per
  entry of a list of pairwise distinct track descriptors, and it reads back as the
  header row and row \<open>k\<close> (from 0) carrying the index \<open>k + 1\<close>: no descriptor is in two rows,
  and the indices are 1 to N in order, each once, N being the number of unique tracks a
  run reads back from the file. Three runs, the second failing, leave the rows 1 to 3.
\<close>

theorem ledger_rows_unique_and_consecutive:
  "(runs inputs None = None
    \<or> (\<exists>es. distinct es
           \<and> runs inputs None =
               Some (csv_record [''Index'', ''Track'']
                     @ concat (map (\<lambda>k. csv_record [str_int (1 + int k), es ! k])
                         [0..<length es]))
           \<and> csv_reader (file_content (runs inputs None)) =
               [''Index'', ''Track'']
               # map (\<lambda>k. [str_int (1 + int k), es ! k]) [0..<length es]
           \<and> distinct (map (\<lambda>k. str_int (1 + int k)) [0..<length es])
           \<and> read_ledger (runs inputs None) = Inr (set es)
           \<and> card (set es) = length es))
   \<and> runs
        [(\<lambda>pid. Some [Some (track_of ''A'' [''x'']), Some (track_of ''B'' [''y''])],
          ''https://open.spotify.com/playlist/abc''),
         (\<lambda>pid. None, ''https://open.spotify.com/playlist/abc''),
         (\<lambda>pid. Some [Some (track_of ''B'' [''y'']), Some (track_of ''C'' [''z''])],
          ''https://open.spotify.com/playlist/abc'')]
        None
      = Some (''Index,Track'' @ [CR, LF] @ ''1,A - x'' @ [CR, LF] @ ''2,B - y'' @ [CR, LF]
              @ ''3,C - z'' @ [CR, LF])"
proof (rule conjI)
  show "runs inputs None = None
     \<or> (\<exists>es. distinct es
            \<and> runs inputs None =
                Some (csv_record [''Index'', ''Track'']
                      @ concat (map (\<lambda>k. csv_record [str_int (1 + int k), es ! k])
                          [0..<length es]))
            \<and> csv_reader (file_content (runs inputs None)) =
                [''Index'', ''Track'']
                # map (\<lambda>k. [str_int (1 + int k), es ! k]) [0..<length es]
            \<and> distinct (map (\<lambda>k. str_int (1 + int k)) [0..<length es])
            \<and> read_ledger (runs inputs None) = Inr (set es)
            \<and> card (set es) = length es)"
    by (rule ledger_rows_after_runs)
  show "runs
        [(\<lambda>pid. Some [Some (track_of ''A'' [''x'']), Some (track_of ''B'' [''y''])],
          ''https://open.spotify.com/playlist/abc''),
         (\<lambda>pid. None, ''https://open.spotify.com/playlist/abc''),
         (\<lambda>pid. Some [Some (track_of ''B'' [''y'']), Some (track_of ''C'' [''z''])],
          ''https://open.spotify.com/playlist/abc'')]
        None
      = Some (''Index,Track'' @ [CR, LF] @ ''1,A - x'' @ [CR, LF] @ ''2,B - y'' @ [CR, LF]
              @ ''3,C - z'' @ [CR, LF])"
    by code_simp
qed

text \<open>
  C7. A run that ends in the invalid URL branch, the malformed ID branch or the fetch
  error branch leaves the ledger file as it was: an absent file stays absent and an
  existing one keeps its text. The URL \<open>https://example.com/not-a-playlist\<close> ends in the
  invalid URL branch.
\<close>

theorem error_runs_keep_ledger:
  assumes "fst (extract_playlist_tracks sp url f) = Inl e"
    and "e \<in> {InvalidUrlError, MalformedIdError, FetchError}"
  shows "snd (extract_playlist_tracks sp url f) = f
       \<and> extract_playlist_tracks sp ''https://example.com/not-a-playlist'' f
           = (Inl InvalidUrlError, f)"
proof
  show "snd (extract_playlist_tracks sp url f) = f"
    using assms(1) by (rule extract_error_keeps_file)
  have "parse_playlist_id ''https://example.com/not-a-playlist'' = Inl InvalidUrlError"
    by code_simp
  then show "extract_playlist_tracks sp ''https://example.com/not-a-playlist'' f
           = (Inl InvalidUrlError, f)"
    by (simp add: extract_playlist_tracks_def)
qed

text \<open>An invalid URL with no file, and a failing fetch with a ledger of one entry.\<close>

theorem error_runs_keep_ledger_witness:
  "extract_playlist_tracks (\<lambda>pid. None) ''https://example.com/not-a-playlist'' None
     = (Inl InvalidUrlError, None)
   \<and> extract_playlist_tracks (\<lambda>pid. None) ''https://open.spotify.com/playlist/abc''
       (Some (''Index,Track'' @ [CR, LF] @ ''1,A'' @ [CR, LF]))
     = (Inl FetchError, Some (''Index,Track'' @ [CR, LF] @ ''1,A'' @ [CR, LF]))"
proof -
  have a: "fst (extract_playlist_tracks (\<lambda>pid. None) ''https://example.com/not-a-playlist'' None)
     = Inl InvalidUrlError"
    by code_simp
  have b: "fst (extract_playlist_tracks (\<lambda>pid. None) ''https://open.spotify.com/playlist/abc''
       (Some (''Index,Track'' @ [CR, LF] @ ''1,A'' @ [CR, LF]))) = Inl FetchError"
    by code_simp
  from error_runs_keep_ledger [OF a] error_runs_keep_ledger [OF b] a b
  show ?thesis
    by (simp add: prod_eq_iff)
qed

section \<open>Properties of the URL parser\<close>

lemma cut_first_None_iff: "cut_first sep s = None \<longleftrightarrow> \<not> sublist sep s"
  by (induction s) (auto simp: sublist_Cons_right)

lemma str_split_not_Nil: "str_split sep s \<noteq> []"
  by (subst str_split.simps) (auto split: option.splits)

lemma str_split_cut:
  "sep \<noteq> [] \<Longrightarrow> cut_first sep s = Some (p, r) \<Longrightarrow> str_split sep s = p # str_split sep r"
  by (subst str_split.simps) simp

lemma str_split_whole:
  "cut_first sep s = None \<Longrightarrow> str_split sep s = [s]"
  by (subst str_split.simps) simp

lemma sublist_marker: "sublist url_marker url \<Longrightarrow> sublist ''playlist/'' url"
proof -
  assume "sublist url_marker url"
  moreover have "sublist ''playlist/'' url_marker"
    unfolding url_marker_def by code_simp
  ultimately show ?thesis by (rule sublist_order.order.trans [rotated])
qed

text \<open>
  C10. For a URL that contains \<open>open.spotify.com/playlist/\<close>, neither subscript of line 72
  raises \<open>IndexError\<close>: the parser returns a playlist ID. So the malformed ID branch is
  never taken, whatever the URL.
\<close>

theorem playlist_id_total:
  "parse_playlist_id url \<noteq> Inl MalformedIdError
   \<and> (sublist url_marker url \<longrightarrow> (\<exists>playlist_id. parse_playlist_id url = Inr playlist_id))"
proof -
  have "\<exists>playlist_id. parse_playlist_id url = Inr playlist_id" if m: "sublist url_marker url"
  proof -
    from sublist_marker [OF m] obtain p r where c: "cut_first ''playlist/'' url = Some (p, r)"
      by (cases "cut_first ''playlist/'' url") (auto simp: cut_first_None_iff)
    have s: "str_split ''playlist/'' url = p # str_split ''playlist/'' r"
      by (rule str_split_cut [OF _ c]) simp
    obtain t ts where t: "str_split ''playlist/'' r = t # ts"
      using str_split_not_Nil [of "''playlist/''" r] by (cases "str_split ''playlist/'' r") auto
    obtain q qs where q: "str_split ''?'' t = q # qs"
      using str_split_not_Nil [of "''?''" t] by (cases "str_split ''?'' t") auto
    show ?thesis
      using m by (simp add: parse_playlist_id_def s t q index_def)
  qed
  moreover have "parse_playlist_id url = Inl InvalidUrlError" if "\<not> sublist url_marker url"
    using that by (simp add: parse_playlist_id_def)
  ultimately show ?thesis by (cases "sublist url_marker url") auto
qed

text \<open>A share link with a query string.\<close>

theorem playlist_id_total_witness:
  "sublist url_marker ''https://open.spotify.com/playlist/abc?si=1''
   \<and> parse_playlist_id ''https://open.spotify.com/playlist/abc?si=1'' = Inr ''abc''"
proof -
  have m: "sublist url_marker ''https://open.spotify.com/playlist/abc?si=1''"
    by code_simp
  have v: "parse_playlist_id ''https://open.spotify.com/playlist/abc?si=1'' = Inr ''abc''"
    by code_simp
  from playlist_id_total [of "''https://open.spotify.com/playlist/abc?si=1''"] m v
  show ?thesis by simp
qed

lemma cut_first_Some:
  "sep \<noteq> [] \<Longrightarrow> cut_first sep s = Some (p, r) \<Longrightarrow>
   s = p @ sep @ r \<and> \<not> sublist sep (p @ butlast sep)"
proof (induction s arbitrary: p)
  case Nil
  then show ?case by simp
next
  case (Cons c cs)
  show ?case
  proof (cases "prefix sep (c # cs)")
    case True
    with Cons.prems have p: "p = []" and r: "r = drop (length sep) (c # cs)" by simp_all
    from True have "c # cs = sep @ r"
      unfolding r by (metis append_eq_conv_conj prefixE)
    moreover have "\<not> sublist sep (butlast sep)"
    proof
      assume "sublist sep (butlast sep)"
      then have "length sep \<le> length (butlast sep)" by (rule sublist_length_le)
      with \<open>sep \<noteq> []\<close> show False by (cases sep rule: rev_cases) simp_all
    qed
    ultimately show ?thesis by (simp add: p)
  next
    case False
    with Cons.prems obtain p' where c: "cut_first sep cs = Some (p', r)" and p: "p = c # p'"
      by auto
    from Cons.IH [OF \<open>sep \<noteq> []\<close> c]
    have cs: "cs = p' @ sep @ r" and n: "\<not> sublist sep (p' @ butlast sep)"
      by simp_all
    have "\<not> prefix sep (c # p' @ butlast sep)"
    proof
      assume a: "prefix sep (c # p' @ butlast sep)"
      have "sep = butlast sep @ [last sep]"
        using \<open>sep \<noteq> []\<close> by simp
      then have "c # cs = (c # p' @ butlast sep) @ ([last sep] @ r)"
        using cs by (metis append.assoc append_Cons)
      then have "prefix (c # p' @ butlast sep) (c # cs)"
        by (rule prefixI)
      with a have "prefix sep (c # cs)" by (metis prefix_def append.assoc)
      with False show False by simp
    qed
    with n have "\<not> sublist sep (c # p' @ butlast sep)"
      by (simp add: sublist_Cons_right)
    then show ?thesis by (simp add: p cs)
  qed
qed

lemma cut_first_char:
  "cut_first [c] s =
     (if c \<in> set s
      then Some (takeWhile (\<lambda>x. x \<noteq> c) s, drop 1 (dropWhile (\<lambda>x. x \<noteq> c) s))
      else None)"
  by (induction s) auto

lemma str_split_char_first:
  "index (str_split [c] s) 0 = Inr (takeWhile (\<lambda>x. x \<noteq> c) s)"
proof (cases "c \<in> set s")
  case True
  then show ?thesis
    by (subst str_split.simps) (simp add: cut_first_char index_def)
next
  case False
  then have tw: "takeWhile (\<lambda>x. x \<noteq> c) s = s"
    by (intro takeWhile_eq_all_conv [THEN iffD2]) auto
  have "index (str_split [c] s) 0 = Inr s"
    using False by (subst str_split.simps) (simp add: cut_first_char index_def)
  then show ?thesis
    by (simp only: tw)
qed

text \<open>
  C6, as amended. A URL that does not contain \<open>open.spotify.com/playlist/\<close> ends the run
  in the invalid URL branch with the file untouched. Otherwise the playlist ID is the text
  that follows the first \<open>playlist/\<close> of the URL, up to whichever comes first of the next
  \<open>playlist/\<close>, the next \<open>?\<close> and the end of the string; and it is the ID handed to the
  collaborator.
\<close>

theorem playlist_id_stops_at_next_marker:
  "(\<not> sublist url_marker url \<longrightarrow>
      extract_playlist_tracks sp url f = (Inl InvalidUrlError, f))
   \<and> (sublist url_marker url \<longrightarrow>
      (\<exists>pre playlist_id rest.
          url = pre @ ''playlist/'' @ playlist_id @ rest
        \<and> \<not> sublist ''playlist/'' (pre @ ''playlist'')
        \<and> parse_playlist_id url = Inr playlist_id
        \<and> CHR ''?'' \<notin> set playlist_id
        \<and> \<not> sublist ''playlist/'' playlist_id
        \<and> (rest = [] \<or> prefix ''?'' rest \<or> prefix ''playlist/'' rest)
        \<and> (sp playlist_id = None \<longrightarrow>
             extract_playlist_tracks sp url f = (Inl FetchError, f))))"
proof (intro conjI impI)
  assume "\<not> sublist url_marker url"
  then show "extract_playlist_tracks sp url f = (Inl InvalidUrlError, f)"
    by (simp add: extract_playlist_tracks_def parse_playlist_id_def)
next
  let ?sep = "''playlist/''"
  assume m: "sublist url_marker url"
  have ne: "?sep \<noteq> []" by simp
  have bl: "butlast ?sep = ''playlist''" by simp
  from sublist_marker [OF m] obtain pre r where c: "cut_first ?sep url = Some (pre, r)"
    by (cases "cut_first ?sep url") (auto simp: cut_first_None_iff)
  from cut_first_Some [OF ne c] bl
  have url: "url = pre @ ?sep @ r" and first: "\<not> sublist ?sep (pre @ ''playlist'')"
    by simp_all
  have s: "str_split ?sep url = pre # str_split ?sep r"
    by (rule str_split_cut [OF ne c])
  obtain seg after where seg: "index (str_split ?sep url) 1 = Inr seg"
    and r: "r = seg @ after" and noseg: "\<not> sublist ?sep seg"
    and after: "after = [] \<or> prefix ?sep after"
  proof (cases "cut_first ?sep r")
    case None
    then have "index (str_split ?sep url) 1 = Inr r"
      by (simp add: s str_split_whole index_def)
    moreover from None have "\<not> sublist ?sep r" by (simp add: cut_first_None_iff)
    ultimately show ?thesis by (intro that [of r "[]"]) simp_all
  next
    case (Some a)
    obtain seg r2 where a: "a = (seg, r2)" by (cases a)
    from Some a have c2: "cut_first ?sep r = Some (seg, r2)" by simp
    from cut_first_Some [OF ne c2]
    have r2: "r = seg @ ?sep @ r2" and n2: "\<not> sublist ?sep (seg @ butlast ?sep)"
      by simp_all
    have "sublist seg (seg @ butlast ?sep)" by (rule sublist_append_rightI)
    with n2 have "\<not> sublist ?sep seg"
      using sublist_order.order.trans by blast
    moreover have "index (str_split ?sep url) 1 = Inr seg"
      by (simp add: s str_split_cut [OF ne c2] index_def)
    ultimately show ?thesis
      using r2 by (intro that [of seg "?sep @ r2"]) simp_all
  qed
  let ?pid = "takeWhile (\<lambda>x. x \<noteq> CHR ''?'') seg"
  let ?d = "dropWhile (\<lambda>x. x \<noteq> CHR ''?'') seg"
  have p: "parse_playlist_id url = Inr ?pid"
    using m seg by (simp add: parse_playlist_id_def str_split_char_first)
  have u: "url = pre @ ?sep @ ?pid @ (?d @ after)"
    by (simp add: url r)
  have q: "CHR ''?'' \<notin> set ?pid"
    by (auto dest: set_takeWhileD)
  have "sublist ?pid seg" by (rule sublist_takeWhile)
  with noseg have n: "\<not> sublist ?sep ?pid"
    using sublist_order.order.trans by blast
  have d: "?d = [] \<or> prefix ''?'' ?d"
  proof (cases ?d)
    case Nil
    then show ?thesis by simp
  next
    case (Cons x xs)
    then have "x = CHR ''?''"
      using hd_dropWhile [of "\<lambda>x. x \<noteq> CHR ''?''" seg] by simp
    with Cons show ?thesis by simp
  qed
  have t: "?d @ after = [] \<or> prefix ''?'' (?d @ after) \<or> prefix ?sep (?d @ after)"
  proof (cases "?d = []")
    case True
    then have "?d @ after = after" by simp
    with after show ?thesis by (simp only:) blast
  next
    case False
    with d have "prefix ''?'' ?d" by blast
    then have "prefix ''?'' (?d @ after)" by (rule prefix_prefix)
    then show ?thesis by blast
  qed
  have e: "sp ?pid = None \<longrightarrow> extract_playlist_tracks sp url f = (Inl FetchError, f)"
    by (simp add: extract_playlist_tracks_def p)
  show "\<exists>pre playlist_id rest.
          url = pre @ ''playlist/'' @ playlist_id @ rest
        \<and> \<not> sublist ''playlist/'' (pre @ ''playlist'')
        \<and> parse_playlist_id url = Inr playlist_id
        \<and> CHR ''?'' \<notin> set playlist_id
        \<and> \<not> sublist ''playlist/'' playlist_id
        \<and> (rest = [] \<or> prefix ''?'' rest \<or> prefix ''playlist/'' rest)
        \<and> (sp playlist_id = None \<longrightarrow>
             extract_playlist_tracks sp url f = (Inl FetchError, f))"
    apply (rule exI [of _ pre])
    apply (rule exI [of _ ?pid])
    apply (rule exI [of _ "?d @ after"])
    apply (intro conjI)
          apply (rule u)
         apply (rule first)
        apply (rule p)
       apply (rule q)
      apply (rule n)
     apply (rule t)
    apply (rule e)
    done
qed

text \<open>
  C6 as stated fails: with no \<open>?\<close> in the URL, the text from \<open>playlist/\<close> to the end of
  the string is \<open>abcplaylist/def\<close>, and line 72 returns \<open>abc\<close>.
\<close>

theorem playlist_id_counterexample:
  "parse_playlist_id ''https://open.spotify.com/playlist/abcplaylist/def'' = Inr ''abc''
   \<and> playlist_id_spec ''https://open.spotify.com/playlist/abcplaylist/def''
       = Inr ''abcplaylist/def''
   \<and> parse_playlist_id ''https://open.spotify.com/playlist/abcplaylist/def''
       \<noteq> playlist_id_spec ''https://open.spotify.com/playlist/abcplaylist/def''"
  by code_simp


text \<open>A URL with a second \<open>playlist/\<close> after the ID, and a URL without the marker.\<close>

theorem playlist_id_stops_at_next_marker_witness:
  "sublist url_marker ''https://open.spotify.com/playlist/abcplaylist/def''
   \<and> (\<exists>pre rest.
         ''https://open.spotify.com/playlist/abcplaylist/def'' = pre @ ''playlist/'' @ ''abc'' @ rest
       \<and> (rest = [] \<or> prefix ''?'' rest \<or> prefix ''playlist/'' rest))
   \<and> extract_playlist_tracks (\<lambda>pid. None)
         ''https://open.spotify.com/playlist/abcplaylist/def'' None = (Inl FetchError, None)
   \<and> \<not> sublist url_marker ''https://example.com/not-a-playlist''
   \<and> extract_playlist_tracks (\<lambda>pid. None) ''https://example.com/not-a-playlist'' None
       = (Inl InvalidUrlError, None)"
proof -
  let ?u = "''https://open.spotify.com/playlist/abcplaylist/def''"
  let ?v = "''https://example.com/not-a-playlist''"
  have m: "sublist url_marker ?u" by code_simp
  have i: "parse_playlist_id ?u = Inr ''abc''" by code_simp
  have b: "\<not> sublist url_marker ?v" by code_simp
  from playlist_id_stops_at_next_marker [of ?u "\<lambda>pid. None" None] m
  obtain pre playlist_id rest where
    u: "?u = pre @ ''playlist/'' @ playlist_id @ rest"
    and p: "parse_playlist_id ?u = Inr playlist_id"
    and r: "rest = [] \<or> prefix ''?'' rest \<or> prefix ''playlist/'' rest"
    and e: "extract_playlist_tracks (\<lambda>pid. None) ?u None = (Inl FetchError, None)"
    by blast
  from p i have "playlist_id = ''abc''" by simp
  with u r have "\<exists>pre rest. ?u = pre @ ''playlist/'' @ ''abc'' @ rest
       \<and> (rest = [] \<or> prefix ''?'' rest \<or> prefix ''playlist/'' rest)"
    by blast
  moreover from playlist_id_stops_at_next_marker [of ?v "\<lambda>pid. None" None] b
  have "extract_playlist_tracks (\<lambda>pid. None) ?v None = (Inl InvalidUrlError, None)"
    by blast
  ultimately show ?thesis
    using m b e by blast
qed

section \<open>Properties of the track descriptors\<close>

lemma artist_names_of:
  "artist_names (map (\<lambda>a. \<lparr>artist_name = Some a\<rparr>) artists) = Inr artists"
  by (induction artists) simp_all

lemma descriptor_track_of:
  "descriptor (track_of name artists) = Inr (name @ '' - '' @ join '', '' artists)"
  by (simp add: descriptor_def track_of_def artist_names_of)

lemma track_data_raw_skips_None:
  "track_data_raw (filter (\<lambda>i. i \<noteq> None) items) = track_data_raw items"
proof (induction items)
  case Nil
  show ?case by simp
next
  case (Cons i items)
  show ?case
  proof (cases i)
    case None
    with Cons show ?thesis by simp
  next
    case (Some t)
    with Cons show ?thesis by (cases "descriptor t") simp_all
  qed
qed

text \<open>
  C8, as amended. For items whose track is \<open>None\<close> or a track with its name and its
  artists' names, the descriptors are, in fetch order, the name, \<open>" - "\<close> and the artists'
  names joined by \<open>", "\<close>, one for each item whose track is not \<open>None\<close>. Items whose track
  is \<open>None\<close> are dropped before the merge: a run gives the same report and the same file
  with them as without them.
\<close>

theorem descriptors_of_tracks_not_None:
  "track_data_raw (map (map_option (\<lambda>(name, artists). track_of name artists)) items)
     = Inr (map (\<lambda>(name, artists). name @ '' - '' @ join '', '' artists)
              (List.map_filter id items))
   \<and> track_data_raw (filter (\<lambda>i. i \<noteq> None) tracks) = track_data_raw tracks
   \<and> extract_playlist_tracks (\<lambda>pid. map_option (filter (\<lambda>i. i \<noteq> None)) (sp pid)) url f
       = extract_playlist_tracks sp url f
   \<and> track_data_raw
        [Some (track_of ''Song'' [''X'', ''Y'']), None, Some (track_of ''Other'' [''Z''])]
       = Inr [''Song - X, Y'', ''Other - Z'']"
proof (intro conjI)
  show "track_data_raw (map (map_option (\<lambda>(name, artists). track_of name artists)) items)
     = Inr (map (\<lambda>(name, artists). name @ '' - '' @ join '', '' artists)
              (List.map_filter id items))"
  proof (induction items)
    case Nil
    show ?case by (simp add: List.map_filter_simps)
  next
    case (Cons i items)
    show ?case
    proof (cases i)
      case None
      with Cons show ?thesis by (simp add: List.map_filter_simps)
    next
      case (Some t)
      obtain name artists where t: "t = (name, artists)" by (cases t)
      with Some Cons show ?thesis
        by (simp add: List.map_filter_simps descriptor_track_of)
    qed
  qed
  show "track_data_raw (filter (\<lambda>i. i \<noteq> None) tracks) = track_data_raw tracks"
    by (rule track_data_raw_skips_None)
  show "extract_playlist_tracks (\<lambda>pid. map_option (filter (\<lambda>i. i \<noteq> None)) (sp pid)) url f
       = extract_playlist_tracks sp url f"
  proof (cases "parse_playlist_id url")
    case (Inl e)
    then show ?thesis by (simp add: extract_playlist_tracks_def)
  next
    case (Inr playlist_id)
    show ?thesis
    proof (cases "sp playlist_id")
      case None
      with Inr show ?thesis by (simp add: extract_playlist_tracks_def)
    next
      case (Some items)
      with Inr show ?thesis
        by (simp add: extract_playlist_tracks_def track_data_raw_skips_None [simplified])
    qed
  qed
  show "track_data_raw
        [Some (track_of ''Song'' [''X'', ''Y'']), None, Some (track_of ''Other'' [''Z''])]
       = Inr [''Song - X, Y'', ''Other - Z'']"
    by code_simp
qed

text \<open>
  C8 as stated fails for a track that is empty but not \<open>None\<close>: line 94 only tests
  \<open>track is None\<close>, so the empty dict reaches \<open>track['name']\<close>, which raises \<open>KeyError\<close>;
  the run ends there and nothing is exported.
\<close>

theorem empty_track_counterexample:
  "track_data_raw [Some (track_of ''Song'' [''X'']), Some empty_track] = Inl (KeyError ''name'')
   \<and> track_data_raw [Some (track_of ''Song'' [''X'']), Some empty_track] \<noteq> Inr [''Song - X'']
   \<and> extract_playlist_tracks
        (\<lambda>pid. Some [Some (track_of ''Song'' [''X'']), Some empty_track])
        ''https://open.spotify.com/playlist/abc'' None
       = (Inl (KeyError ''name''), None)"
  by code_simp

end
